theory Spec2Isabelle
  imports Complex_Main "HOL-Library.Multiset" "HOL-Library.AList"
begin

section \<open>Data model of \<open>playlist_player.py\<close>\<close>

text \<open>
  The dataclass \<open>Track\<close>. Python floats (durations, clock readings) are modelled by
  exact reals; \<open>Optional[...]\<close> fields are options.
\<close>

record Track =
  title :: string
  artist :: string
  platform :: string
  url :: string
  uri :: "string option"
  duration :: "real option"
  added_by_id :: "string option"
  added_by_name :: "string option"
  added_at :: "string option"

text \<open>
  The fields of \<open>RandomPlayer\<close> that the scheduling engine reads or writes (the leading
  underscore of the private attributes is dropped). \<open>play_counts\<close> is a Python dict,
  kept as an association list in insertion order. A \<open>threading.Timer\<close> object is
  represented by a handle; \<open>live_timers\<close> lists the countdowns that have been started
  and not cancelled, each with its interval, and \<open>next_timer\<close> is the next unused handle.
\<close>

record RandomPlayer =
  youtube_tracks :: "Track list"
  spotify_tracks :: "Track list"
  all_tracks :: "Track list"
  played_tracks :: "Track list"
  current_platform :: "string option"
  youtube_url :: string
  spotify_url :: string
  spotify_client_id :: string
  spotify_client_secret :: string
  youtube_playing :: bool
  spotify_playing :: bool
  current_track_title :: "string option"
  play_counts :: "(string \<times> int) list"
  autoplay_timer :: "nat option"
  autoplay_start_time :: "real option"
  autoplay_duration :: "real option"
  autoplay_remaining :: "real option"
  autoplay_paused :: bool
  queue :: "Track list"
  live_timers :: "(nat \<times> real) list"
  next_timer :: nat

text \<open>\<open>RandomPlayer.__init__\<close>, with no persisted play counts on disk.\<close>

definition init_player :: RandomPlayer where
  "init_player =
     \<lparr> youtube_tracks = [], spotify_tracks = [], all_tracks = [], played_tracks = [],
       current_platform = None, youtube_url = [], spotify_url = [],
       spotify_client_id = [], spotify_client_secret = [],
       youtube_playing = False, spotify_playing = False, current_track_title = None,
       play_counts = [], autoplay_timer = None, autoplay_start_time = None,
       autoplay_duration = None, autoplay_remaining = None, autoplay_paused = False,
       queue = [], live_timers = [], next_timer = 0 \<rparr>"

subsection \<open>Identity key and ledger lookup\<close>

text \<open>
  \<open>_track_key\<close>: the URI if it is truthy (present and non-empty), else the URL if
  non-empty, else \<open>platform:title - artist\<close>.
\<close>

definition track_key :: "Track \<Rightarrow> string" where
  "track_key track =
     (case uri track of
        Some u \<Rightarrow>
          if u \<noteq> [] then u
          else if url track \<noteq> [] then url track
          else platform track @ '':'' @ title track @ '' - '' @ artist track
      | None \<Rightarrow>
          if url track \<noteq> [] then url track
          else platform track @ '':'' @ title track @ '' - '' @ artist track)"

text \<open>\<open>play_counts.get(key, 0)\<close>.\<close>

definition get_count :: "(string \<times> int) list \<Rightarrow> string \<Rightarrow> int" where
  "get_count pc k = (case map_of pc k of None \<Rightarrow> 0 | Some c \<Rightarrow> c)"

definition count_of :: "RandomPlayer \<Rightarrow> Track \<Rightarrow> int" where
  "count_of s t = get_count (play_counts s) (track_key t)"

subsection \<open>\<open>random.shuffle\<close>\<close>

text \<open>
  The standard library shuffles in place, for \<open>i\<close> from \<open>len(x) - 1\<close> down to \<open>1\<close>
  exchanging \<open>x[i]\<close> with \<open>x[j]\<close>, \<open>j = randbelow(i + 1)\<close>. The random source is
  a parameter: \<open>rnd i\<close> is the number drawn at step \<open>i\<close>, reduced into \<open>0..i\<close>.
\<close>

fun shuffle_from :: "(nat \<Rightarrow> nat) \<Rightarrow> nat \<Rightarrow> 'a list \<Rightarrow> 'a list" where
  "shuffle_from rnd 0 xs = xs"
| "shuffle_from rnd (Suc i) xs =
     (let j = rnd (Suc i) mod (Suc i + 1)
      in shuffle_from rnd i (xs[Suc i := xs ! j, j := xs ! Suc i]))"

definition shuffle :: "(nat \<Rightarrow> nat) \<Rightarrow> 'a list \<Rightarrow> 'a list" where
  "shuffle rnd xs = shuffle_from rnd (length xs - 1) xs"

subsection \<open>The fairness queue\<close>

text \<open>The catalog slice \<open>_fill_queue\<close> selects for its \<open>platform\<close> argument.\<close>

definition slice_of :: "string option \<Rightarrow> RandomPlayer \<Rightarrow> Track list" where
  "slice_of plat s =
     (case plat of
        None \<Rightarrow> all_tracks s
      | Some p \<Rightarrow> if p = ''youtube'' then youtube_tracks s else spotify_tracks s)"

text \<open>
  Writing a list back through the name \<open>tracks\<close> of \<open>_fill_queue\<close>: when the candidate
  list is empty the code binds \<open>candidates = tracks\<close>, the same list object, and the
  in-place shuffle then permutes that catalog list itself.
\<close>

definition set_slice :: "string option \<Rightarrow> Track list \<Rightarrow> RandomPlayer \<Rightarrow> RandomPlayer" where
  "set_slice plat xs s =
     (case plat of
        None \<Rightarrow> s\<lparr>all_tracks := xs\<rparr>
      | Some p \<Rightarrow>
          if p = ''youtube'' then s\<lparr>youtube_tracks := xs\<rparr> else s\<lparr>spotify_tracks := xs\<rparr>)"

text \<open>\<open>_fill_queue\<close>.\<close>

definition fill_queue :: "(nat \<Rightarrow> nat) \<Rightarrow> string option \<Rightarrow> RandomPlayer \<Rightarrow> RandomPlayer" where
  "fill_queue rnd plat s =
     (let tracks = slice_of plat s in
      if tracks = [] then s
      else
        let counts = map (\<lambda>t. get_count (play_counts s) (track_key t)) tracks;
            min_count = (if counts \<noteq> [] then min_list counts else 0);
            candidates = map fst (filter (\<lambda>(t, c). c = min_count) (zip tracks counts))
        in if candidates = []
           then (let shuffled = shuffle rnd tracks
                 in (set_slice plat shuffled s)\<lparr>queue := queue s @ shuffled\<rparr>)
           else s\<lparr>queue := queue s @ shuffle rnd candidates\<rparr>)"

text \<open>
  What the external collaborators do during one call, as far as the player's own state
  depends on it. \<open>nav_reused\<close>: \<open>_navigate_in_same_tab\<close> returned \<open>True\<close> (an
  exception there is caught and counts as \<open>False\<close>). \<open>opened\<close>: how far the guarded
  block that opens the track in the browser gets: to its end, or to an exception raised
  by \<open>webbrowser.open\<close> before any attribute is written, or (Spotify only, the YouTube
  block makes no such call) to an exception raised by \<open>_focus_spotify_app\<close> after the
  platform flags are written. The handler's second \<open>webbrowser.open\<close> is taken to
  return.
\<close>

datatype open_outcome = Completed | OpenFailed | FocusFailed

record surface =
  nav_reused :: bool
  opened :: open_outcome

subsection \<open>The autoplay timer\<close>

definition cancel_timer :: "nat \<Rightarrow> (nat \<times> real) list \<Rightarrow> (nat \<times> real) list" where
  "cancel_timer h lt = filter (\<lambda>(h', d). h' \<noteq> h) lt"

text \<open>
  \<open>_start_autoplay_timer\<close>, called at clock reading \<open>now\<close>. The guard on the duration
  comes first and returns before anything is cancelled.
\<close>

definition start_autoplay_timer :: "real option \<Rightarrow> real \<Rightarrow> RandomPlayer \<Rightarrow> RandomPlayer" where
  "start_autoplay_timer dur now s =
     (case dur of
        None \<Rightarrow> s
      | Some d \<Rightarrow>
          if d \<le> 0 then s
          else
            let live = (case autoplay_timer s of
                          Some h \<Rightarrow> cancel_timer h (live_timers s)
                        | None \<Rightarrow> live_timers s);
                h' = next_timer s
            in s\<lparr>autoplay_start_time := Some now,
                 autoplay_duration := Some d,
                 autoplay_remaining := None,
                 autoplay_paused := False,
                 autoplay_timer := Some h',
                 live_timers := live @ [(h', d)],
                 next_timer := Suc h'\<rparr>)"

text \<open>
  \<open>pause_playback\<close>, called at clock reading \<open>now\<close>; \<open>space_ok\<close> tells whether
  \<open>pyautogui.press('space')\<close> returns rather than raises. The result is the returned
  boolean and the new state. A float attribute is truthy when it is not \<open>None\<close> and not
  zero; inside the branch where both are truthy, \<open>start_time or time.time()\<close> and
  \<open>duration or 0\<close> are the attributes themselves.
\<close>

definition pause_playback :: "bool \<Rightarrow> real \<Rightarrow> RandomPlayer \<Rightarrow> bool \<times> RandomPlayer" where
  "pause_playback space_ok now s =
     (let s1 =
        (if autoplay_timer s \<noteq> None \<and> \<not> autoplay_paused s then
           (let remaining =
                  (case (autoplay_start_time s, autoplay_duration s) of
                     (Some st, Some d) \<Rightarrow>
                       if st \<noteq> 0 \<and> d \<noteq> 0 then Some (d - (now - st)) else None
                   | _ \<Rightarrow> None);
                live = (case autoplay_timer s of
                          Some h \<Rightarrow> cancel_timer h (live_timers s)
                        | None \<Rightarrow> live_timers s)
            in s\<lparr>live_timers := live,
                 autoplay_timer := None,
                 autoplay_remaining := map_option (max (1 / 10)) remaining,
                 autoplay_paused := True\<rparr>)
         else if autoplay_paused s \<and> autoplay_remaining s \<noteq> None then
           (start_autoplay_timer (autoplay_remaining s) now s)
             \<lparr>autoplay_remaining := None, autoplay_paused := False\<rparr>
         else s)
      in (space_ok, s1))"

subsection \<open>Starting a track\<close>

definition is_truthy :: "string option \<Rightarrow> bool" where
  "is_truthy x = (case x of Some v \<Rightarrow> v \<noteq> [] | None \<Rightarrow> False)"

text \<open>The timer arming of the YouTube paths: \<open>if track.duration: ...\<close>.\<close>

definition arm_youtube :: "Track \<Rightarrow> real \<Rightarrow> RandomPlayer \<Rightarrow> RandomPlayer" where
  "arm_youtube track now s =
     (case duration track of
        Some d \<Rightarrow> if d \<noteq> 0 then start_autoplay_timer (Some d) now s else s
      | None \<Rightarrow> s)"

text \<open>
  The shortened duration of the Spotify paths; the offset \<open>k\<close> is 5 where an existing
  tab is reused and 4 where a new tab is opened.
\<close>

definition spotify_timer_dur :: "real \<Rightarrow> real \<Rightarrow> real" where
  "spotify_timer_dur k d =
     (let timer_dur = (if d > k then d - k else d)
      in if timer_dur < 1 then max (5 / 10) (d * (9 / 10)) else timer_dur)"

definition arm_spotify :: "real \<Rightarrow> Track \<Rightarrow> real \<Rightarrow> RandomPlayer \<Rightarrow> RandomPlayer" where
  "arm_spotify k track now s =
     (case duration track of
        Some d \<Rightarrow>
          if d \<noteq> 0 then start_autoplay_timer (Some (spotify_timer_dur k d)) now s else s
      | None \<Rightarrow> s)"

text \<open>\<open>play_track\<close>, called at clock reading \<open>now\<close>.\<close>

definition play_track :: "surface \<Rightarrow> real \<Rightarrow> Track \<Rightarrow> RandomPlayer \<Rightarrow> RandomPlayer" where
  "play_track ext now track s =
     (let reused = (is_truthy (current_track_title s) \<and> nav_reused ext);
          s1 =
            (if platform track = ''youtube'' then
               (let sa = s\<lparr>current_track_title := Some (title track)\<rparr>;
                    sb = sa\<lparr>current_platform := Some ''youtube'', youtube_playing := True\<rparr>
                in if \<not> reused
                   then (case opened ext of
                           OpenFailed \<Rightarrow> sa
                         | _ \<Rightarrow> arm_youtube track now sb)
                   else arm_youtube track now sb)
             else if platform track = ''spotify'' then
               (if reused then
                  arm_spotify 5 track now
                    (s\<lparr>current_track_title := Some (title track),
                       current_platform := Some ''spotify'',
                       spotify_playing := True\<rparr>)
                else
                  (let sa = (if youtube_playing s \<and> is_truthy (current_track_title s)
                             then s\<lparr>youtube_playing := False\<rparr> else s);
                       sb = (if spotify_playing sa \<and> is_truthy (current_track_title sa)
                             then sa\<lparr>spotify_playing := False\<rparr> else sa);
                       sc = sb\<lparr>current_track_title := Some (title track)\<rparr>;
                       sd = sc\<lparr>current_platform := Some ''spotify'', spotify_playing := True\<rparr>
                   in if url track \<noteq> []
                      then (case opened ext of
                              OpenFailed \<Rightarrow> sc
                            | FocusFailed \<Rightarrow> sd
                            | Completed \<Rightarrow> arm_spotify 4 track now sd)
                      else sc))
             else s);
          key = track_key track
      in s1\<lparr>played_tracks := played_tracks s1 @ [track],
            play_counts := AList.update key (get_count (play_counts s1) key + 1) (play_counts s1)\<rparr>)"

subsection \<open>Advancing\<close>

text \<open>
  \<open>_play_next_from_queue\<close>. The Python returns \<open>None\<close> on both paths; the report says
  which one ran: the track handed to \<open>play_track\<close>, or the branch that only prints
  \<open>No tracks in queue!\<close>.
\<close>

datatype report = Played Track | NoTracks

definition play_next_from_queue ::
    "(nat \<Rightarrow> nat) \<Rightarrow> surface \<Rightarrow> real \<Rightarrow> RandomPlayer \<Rightarrow> report \<times> RandomPlayer" where
  "play_next_from_queue rnd ext now s =
     (let s1 = (if queue s = [] then fill_queue rnd None s else s)
      in case queue s1 of
           track # rest \<Rightarrow> (Played track, play_track ext now track (s1\<lparr>queue := rest\<rparr>))
         | [] \<Rightarrow> (NoTracks, s1))"

text \<open>
  A sequence of calls of \<open>_play_next_from_queue\<close>, each with its own random draws,
  surface behaviour and clock reading.
\<close>

fun advances :: "((nat \<Rightarrow> nat) \<times> surface \<times> real) list \<Rightarrow> RandomPlayer \<Rightarrow> RandomPlayer" where
  "advances [] s = s"
| "advances ((rnd, ext, now) # cs) s = advances cs (snd (play_next_from_queue rnd ext now s))"

subsection \<open>Catalog synchronisation\<close>

text \<open>
  What a catalog provider does in one cycle: it delivers a list, or the fetch fails (an
  exception inside the fetch function, or no playlist id found in the URL).
\<close>

datatype fetch_outcome = Fetched "Track list" | FetchFailed

text \<open>\<open>YouTubePlaylist.fetch_videos\<close> and \<open>SpotifyPlaylist.fetch_tracks\<close>: empty on failure.\<close>

definition fetch_videos :: "fetch_outcome \<Rightarrow> Track list" where
  "fetch_videos r = (case r of Fetched vs \<Rightarrow> vs | FetchFailed \<Rightarrow> [])"

definition fetch_tracks :: "fetch_outcome \<Rightarrow> Track list" where
  "fetch_tracks r = (case r of Fetched ts \<Rightarrow> ts | FetchFailed \<Rightarrow> [])"

text \<open>The silent fetches return the list the player already has on failure.\<close>

definition fetch_youtube_silent :: "fetch_outcome \<Rightarrow> RandomPlayer \<Rightarrow> Track list" where
  "fetch_youtube_silent r s = (case r of Fetched vs \<Rightarrow> vs | FetchFailed \<Rightarrow> youtube_tracks s)"

definition fetch_spotify_silent :: "fetch_outcome \<Rightarrow> RandomPlayer \<Rightarrow> Track list" where
  "fetch_spotify_silent r s = (case r of Fetched ts \<Rightarrow> ts | FetchFailed \<Rightarrow> spotify_tracks s)"

text \<open>
  The block of \<open>load_playlists\<close> that runs under \<open>_playlist_lock\<close>: it installs the
  two new lists and their concatenation, drops from the queue the entries whose URL is no
  longer in the catalog, and appends the catalog entries whose URL is new and not queued.
\<close>

definition install_tracks :: "Track list \<Rightarrow> Track list \<Rightarrow> RandomPlayer \<Rightarrow> RandomPlayer" where
  "install_tracks new_youtube_tracks new_spotify_tracks s =
     (let old_all_tracks = all_tracks s;
          s1 = s\<lparr>youtube_tracks := new_youtube_tracks,
                 spotify_tracks := new_spotify_tracks,
                 all_tracks := new_youtube_tracks @ new_spotify_tracks\<rparr>;
          removed_tracks = filter (\<lambda>t. url t \<notin> set (map url (all_tracks s1))) (queue s1);
          s2 = (if removed_tracks \<noteq> []
                then s1\<lparr>queue := filter (\<lambda>t. url t \<in> set (map url (all_tracks s1))) (queue s1)\<rparr>
                else s1);
          new_tracks = filter (\<lambda>t. url t \<notin> set (map url old_all_tracks)) (all_tracks s2)
      in if new_tracks \<noteq> []
         then s2\<lparr>queue := queue s2 @ filter (\<lambda>t. url t \<notin> set (map url (queue s2))) new_tracks\<rparr>
         else s2)"

text \<open>
  \<open>load_playlists\<close>; \<open>yt\<close> and \<open>sp\<close> are what the two providers do in this cycle.
  The notification of the display and the console output are left out.
\<close>

definition load_playlists ::
    "string \<Rightarrow> string \<Rightarrow> string \<Rightarrow> string \<Rightarrow> bool \<Rightarrow> fetch_outcome \<Rightarrow> fetch_outcome \<Rightarrow>
     RandomPlayer \<Rightarrow> RandomPlayer" where
  "load_playlists y_url s_url client_id client_secret silent yt sp s =
     (let s0 = s\<lparr>youtube_url := y_url, spotify_url := s_url,
                 spotify_client_id := client_id, spotify_client_secret := client_secret\<rparr>;
          tracks = all_tracks s0;
          counts = map (\<lambda>t. get_count (play_counts s0) (track_key t)) tracks;
          min_count = (if counts \<noteq> [] then min_list counts else 0);
          new_youtube_tracks =
            (if y_url \<noteq> []
             then filter (\<lambda>t. get_count (play_counts s0) (track_key t) = min_count)
                    (if \<not> silent then fetch_videos yt else fetch_youtube_silent yt s0)
             else []);
          new_spotify_tracks =
            (if s_url \<noteq> [] \<and> client_id \<noteq> [] \<and> client_secret \<noteq> []
             then filter (\<lambda>t. get_count (play_counts s0) (track_key t) = min_count)
                    (if \<not> silent then fetch_tracks sp else fetch_spotify_silent sp s0)
             else [])
      in install_tracks new_youtube_tracks new_spotify_tracks s0)"

text \<open>The minimum count \<open>load_playlists\<close> computes over the catalog it starts from.\<close>

definition min_count_of :: "RandomPlayer \<Rightarrow> int" where
  "min_count_of s =
     (let counts = map (\<lambda>t. get_count (play_counts s) (track_key t)) (all_tracks s)
      in if counts \<noteq> [] then min_list counts else 0)"

subsection \<open>Reordering by drag and drop\<close>

text \<open>
  Python's \<open>list.pop(i)\<close> and \<open>list.insert(i, x)\<close>: a negative index counts from the
  end; \<open>pop\<close> raises \<open>IndexError\<close> out of range (here \<open>None\<close>), \<open>insert\<close> clips.
\<close>

definition list_pop :: "int \<Rightarrow> 'a list \<Rightarrow> ('a \<times> 'a list) option" where
  "list_pop i xs =
     (let n = int (length xs); j = (if i < 0 then i + n else i)
      in if 0 \<le> j \<and> j < n
         then Some (xs ! nat j, take (nat j) xs @ drop (Suc (nat j)) xs)
         else None)"

definition list_insert :: "int \<Rightarrow> 'a \<Rightarrow> 'a list \<Rightarrow> 'a list" where
  "list_insert i x xs =
     (let n = int (length xs); j = (if i < 0 then max 0 (i + n) else min i n)
      in take (nat j) xs @ x # drop (nat j) xs)"

text \<open>
  The locked part of \<open>_on_tree_button_release\<close>, for a drag in progress: \<open>from_idx\<close> and
  \<open>to_idx\<close> are the parsed row numbers minus one, \<open>None\<close> where parsing failed or the
  pointer is over no row. An exception is swallowed by the handler's outer \<open>try\<close>.
\<close>

definition on_tree_button_release :: "int option \<Rightarrow> int option \<Rightarrow> RandomPlayer \<Rightarrow> RandomPlayer" where
  "on_tree_button_release from_idx to_idx s =
     (case from_idx of
        None \<Rightarrow> s
      | Some f \<Rightarrow>
          if f < 0 \<or> f \<ge> int (length (queue s)) then s
          else
            (case list_pop f (queue s) of
               None \<Rightarrow> s
             | Some (item, q1) \<Rightarrow>
                 (case to_idx of
                    None \<Rightarrow> s\<lparr>queue := q1 @ [item]\<rparr>
                  | Some t \<Rightarrow>
                      let t' = (if f < t then max 0 t else t);
                          insert_at = min (max 0 t') (int (length q1))
                      in s\<lparr>queue := list_insert insert_at item q1\<rparr>)))"

subsection \<open>The fairness invariant\<close>

text \<open>
  The catalog counts lie on two adjacent levels \<open>m\<close> and \<open>m + 1\<close>, every queued
  track is on the lower level, and keys are not repeated in the queue or in the catalog.
\<close>

definition fair_inv :: "RandomPlayer \<Rightarrow> bool" where
  "fair_inv s \<longleftrightarrow>
     (\<exists>m. (\<forall>t \<in> set (all_tracks s). count_of s t = m \<or> count_of s t = m + 1) \<and>
          (\<forall>t \<in> set (queue s). count_of s t = m)) \<and>
     distinct (map track_key (queue s)) \<and>
     distinct (map track_key (all_tracks s))"

subsection \<open>Example data\<close>

text \<open>A track as \<open>fetch_videos\<close> builds it for the video id \<open>v\<close>, with no duration known.\<close>

definition yt_track :: "string \<Rightarrow> Track" where
  "yt_track v =
     \<lparr> title = v, artist = ''Unknown'', platform = ''youtube'',
       url = ''https://www.youtube.com/watch?v='' @ v, uri = None, duration = None,
       added_by_id = None, added_by_name = None, added_at = None \<rparr>"

definition track_A :: Track where "track_A = yt_track ''A''"
definition track_B :: Track where "track_B = yt_track ''B''"
definition track_C :: Track where "track_C = yt_track ''C''"

text \<open>A surface on which no tab is reused and every open succeeds.\<close>

definition quiet :: surface where
  "quiet = \<lparr> nav_reused = False, opened = Completed \<rparr>"

definition ex_fill :: RandomPlayer where
  "ex_fill = init_player\<lparr>all_tracks := [track_A, track_B, track_C],
                         play_counts := [(track_key track_A, 1)],
                         queue := [track_A]\<rparr>"

definition ex_dup :: RandomPlayer where
  "ex_dup = init_player\<lparr>youtube_tracks := [track_A, track_A, track_B],
                        all_tracks := [track_A, track_A, track_B]\<rparr>"

definition ex_abc :: RandomPlayer where
  "ex_abc = init_player\<lparr>youtube_tracks := [track_A, track_B, track_C],
                        all_tracks := [track_A, track_B, track_C]\<rparr>"

text \<open>
  The queue the locked block leaves, as a function of the old queue, the old catalog and
  the new catalog.
\<close>

definition reconcile :: "Track list \<Rightarrow> Track list \<Rightarrow> Track list \<Rightarrow> Track list" where
  "reconcile q old new =
     (let q2 = (if filter (\<lambda>t. url t \<notin> set (map url new)) q \<noteq> []
                then filter (\<lambda>t. url t \<in> set (map url new)) q else q);
          new_tracks = filter (\<lambda>t. url t \<notin> set (map url old)) new
      in if new_tracks \<noteq> []
         then q2 @ filter (\<lambda>t. url t \<notin> set (map url q2)) new_tracks
         else q2)"

text \<open>A first, interactive load of a two-video playlist, and the state after one advance.\<close>

definition ex_loaded :: RandomPlayer where
  "ex_loaded = load_playlists ''yt'' [] [] [] False (Fetched [track_A, track_B]) FetchFailed init_player"

definition ex_played :: RandomPlayer where
  "ex_played = snd (play_next_from_queue (\<lambda>i. 0) quiet 100 ex_loaded)"

text \<open>A track as \<open>fetch_tracks\<close> builds it for the Spotify id \<open>i\<close>, of duration \<open>d\<close>.\<close>

definition sp_track :: "string \<Rightarrow> real \<Rightarrow> Track" where
  "sp_track i d =
     \<lparr> title = i, artist = ''Unknown'', platform = ''spotify'',
       url = ''https://open.spotify.com/track/'' @ i, uri = Some (''spotify:track:'' @ i),
       duration = Some d, added_by_id = None, added_by_name = None, added_at = None \<rparr>"

definition ex_spot :: RandomPlayer where
  "ex_spot = init_player\<lparr>spotify_tracks := [sp_track ''S'' 10], all_tracks := [sp_track ''S'' 10]\<rparr>"

definition ex_sync3 :: RandomPlayer where
  "ex_sync3 = init_player\<lparr>youtube_tracks := [track_A, track_B, track_C],
                          all_tracks := [track_A, track_B, track_C],
                          queue := [track_A, track_B, track_C]\<rparr>"

text \<open>A player whose timer was armed for 10 seconds at clock reading 100.\<close>

definition ex_armed :: RandomPlayer where
  "ex_armed = start_autoplay_timer (Some 10) 100 init_player"

text \<open>A surface on which the existing tab is reused, and a player with a tab open.\<close>

definition reusing :: surface where
  "reusing = \<lparr> nav_reused = True, opened = Completed \<rparr>"

definition ex_playing :: RandomPlayer where
  "ex_playing = init_player\<lparr>current_track_title := Some ''A'', current_platform := Some ''youtube'',
                            youtube_playing := True\<rparr>"

section \<open>Properties\<close>

subsection \<open>Shuffling permutes\<close>

lemma length_shuffle_from: "length (shuffle_from rnd i xs) = length xs"
  by (induction i arbitrary: xs) (simp_all add: Let_def)

lemma mset_shuffle_from: "i < length xs \<Longrightarrow> mset (shuffle_from rnd i xs) = mset xs"
proof (induction i arbitrary: xs)
  case 0
  then show ?case by simp
next
  case (Suc i)
  let ?j = "rnd (Suc i) mod (Suc i + 1)"
  have "?j < Suc i + 1" by (rule mod_less_divisor) simp
  with Suc.prems have j: "?j < length xs" by linarith
  have "mset (xs[Suc i := xs ! ?j, ?j := xs ! Suc i]) = mset xs"
    using mset_swap [OF j Suc.prems] .
  moreover have "i < length (xs[Suc i := xs ! ?j, ?j := xs ! Suc i])"
    using Suc.prems by simp
  ultimately show ?case
    using Suc.IH [of "xs[Suc i := xs ! ?j, ?j := xs ! Suc i]"] by (simp add: Let_def)
qed

lemma mset_shuffle: "mset (shuffle rnd xs) = mset xs"
proof (cases xs)
  case Nil
  then show ?thesis by (simp add: shuffle_def)
next
  case (Cons x ys)
  then show ?thesis by (simp add: shuffle_def mset_shuffle_from)
qed

lemma set_shuffle: "set (shuffle rnd xs) = set xs"
  using mset_shuffle [of rnd xs] by (metis set_mset_mset)

lemma shuffle_Nil_iff: "shuffle rnd xs = [] \<longleftrightarrow> xs = []"
  using mset_shuffle [of rnd xs] by (metis mset_zero_iff)

subsection \<open>Candidates of a refill\<close>

lemma zip_filter_candidates:
  "map fst (filter (\<lambda>(t, c). c = m) (zip xs (map f xs))) = filter (\<lambda>t. f t = m) xs"
  by (induction xs) simp_all

lemma min_list_attained:
  fixes f :: "'a \<Rightarrow> 'b::linorder"
  shows "xs \<noteq> [] \<Longrightarrow> \<exists>t \<in> set xs. f t = min_list (map f xs)"
proof -
  assume ne: "xs \<noteq> []"
  then have "min_list (map f xs) = Min (set (map f xs))"
    by (simp add: min_list_Min)
  moreover have "Min (set (map f xs)) \<in> set (map f xs)"
    using ne by (intro Min_in) simp_all
  ultimately show ?thesis by auto
qed

lemma candidates_nonempty:
  fixes f :: "'a \<Rightarrow> 'b::linorder"
  shows "xs \<noteq> [] \<Longrightarrow> filter (\<lambda>t. f t = min_list (map f xs)) xs \<noteq> []"
  using min_list_attained [of xs f] by (auto simp: filter_empty_conv)

lemma fill_queue_eq:
  "fill_queue rnd plat s =
     (if slice_of plat s = [] then s
      else s\<lparr>queue := queue s @
              shuffle rnd (filter (\<lambda>t. count_of s t = min_list (map (count_of s) (slice_of plat s)))
                                  (slice_of plat s))\<rparr>)"
proof (cases "slice_of plat s = []")
  case True
  then show ?thesis by (simp add: fill_queue_def)
next
  case False
  have cnt: "(\<lambda>t. get_count (play_counts s) (track_key t)) = count_of s"
    by (simp add: count_of_def fun_eq_iff)
  have cands: "map fst (filter (\<lambda>(t, c). c = m)
                   (zip (slice_of plat s) (map (count_of s) (slice_of plat s)))) =
               filter (\<lambda>t. count_of s t = m) (slice_of plat s)" for m
    by (rule zip_filter_candidates)
  have "fill_queue rnd plat s =
          (let candidates = filter (\<lambda>t. count_of s t = min_list (map (count_of s) (slice_of plat s)))
                                   (slice_of plat s)
           in if candidates = []
              then (let shuffled = shuffle rnd (slice_of plat s)
                    in (set_slice plat shuffled s)\<lparr>queue := queue s @ shuffled\<rparr>)
              else s\<lparr>queue := queue s @ shuffle rnd candidates\<rparr>)"
    unfolding fill_queue_def Let_def cnt cands using False by simp
  with False candidates_nonempty [of "slice_of plat s" "count_of s"]
  show ?thesis by (simp add: Let_def)
qed

text \<open>
  C2. \<open>_fill_queue\<close> leaves the player unchanged when the selected slice is empty;
  otherwise it appends to the existing queue a permutation of exactly those tracks of the
  slice whose ledger count (0 for unseen keys) is the minimum over the slice, and changes
  nothing else: the old queue is the prefix of the new one.
\<close>

theorem fill_queue_appends_min_candidates:
  "(slice_of plat s = [] \<longrightarrow> fill_queue rnd plat s = s) \<and>
   (slice_of plat s \<noteq> [] \<longrightarrow>
      (\<exists>p. mset p = mset (filter (\<lambda>t. count_of s t = Min (count_of s ` set (slice_of plat s)))
                                 (slice_of plat s)) \<and>
           p \<noteq> [] \<and>
           fill_queue rnd plat s = s\<lparr>queue := queue s @ p\<rparr>))"
proof (intro conjI impI)
  assume "slice_of plat s = []"
  then show "fill_queue rnd plat s = s" by (simp add: fill_queue_eq)
next
  assume ne: "slice_of plat s \<noteq> []"
  let ?m = "min_list (map (count_of s) (slice_of plat s))"
  let ?c = "filter (\<lambda>t. count_of s t = ?m) (slice_of plat s)"
  have m: "?m = Min (count_of s ` set (slice_of plat s))"
    using ne by (simp add: min_list_Min)
  have "mset (shuffle rnd ?c) = mset ?c" by (rule mset_shuffle)
  moreover have "shuffle rnd ?c \<noteq> []"
    using candidates_nonempty [OF ne, of "count_of s"] by (simp add: shuffle_Nil_iff)
  moreover have "fill_queue rnd plat s = s\<lparr>queue := queue s @ shuffle rnd ?c\<rparr>"
    using ne by (simp add: fill_queue_eq)
  ultimately show "\<exists>p. mset p = mset (filter (\<lambda>t. count_of s t = Min (count_of s ` set (slice_of plat s)))
                                 (slice_of plat s)) \<and> p \<noteq> [] \<and>
           fill_queue rnd plat s = s\<lparr>queue := queue s @ p\<rparr>"
    unfolding m by blast
qed

lemma example_keys [simp]:
  "track_key track_A = ''https://www.youtube.com/watch?v=A''"
  "track_key track_B = ''https://www.youtube.com/watch?v=B''"
  "track_key track_C = ''https://www.youtube.com/watch?v=C''"
  by (simp_all add: track_key_def track_A_def track_B_def track_C_def yt_track_def)

lemma example_tracks_differ [simp]:
  "track_A \<noteq> track_B" "track_B \<noteq> track_A" "track_A \<noteq> track_C"
  "track_C \<noteq> track_A" "track_B \<noteq> track_C" "track_C \<noteq> track_B"
  by (simp_all add: track_A_def track_B_def track_C_def yt_track_def)

theorem fill_queue_appends_min_candidates_witness:
  "slice_of (Some ''youtube'') ex_fill = [] \<and>
   fill_queue (\<lambda>i. 0) (Some ''youtube'') ex_fill = ex_fill \<and>
   slice_of None ex_fill \<noteq> [] \<and>
   (\<exists>p. mset p = {#track_B, track_C#} \<and> p \<noteq> [] \<and>
        fill_queue (\<lambda>i. 0) None ex_fill = ex_fill\<lparr>queue := [track_A] @ p\<rparr>)"
proof -
  have e: "slice_of (Some ''youtube'') ex_fill = []"
    by (simp add: slice_of_def ex_fill_def init_player_def)
  have ne: "slice_of None ex_fill = [track_A, track_B, track_C]"
    by (simp add: slice_of_def ex_fill_def init_player_def)
  have c: "count_of ex_fill track_A = 1" "count_of ex_fill track_B = 0"
    "count_of ex_fill track_C = 0"
    by (simp_all add: count_of_def get_count_def ex_fill_def init_player_def)
  have q: "queue ex_fill = [track_A]" by (simp add: ex_fill_def)
  from fill_queue_appends_min_candidates [of "Some ''youtube''" ex_fill "\<lambda>i. 0"] e
  have 1: "fill_queue (\<lambda>i. 0) (Some ''youtube'') ex_fill = ex_fill" by blast
  from fill_queue_appends_min_candidates [of None ex_fill "\<lambda>i. 0"]
  have 2: "\<exists>p. mset p = {#track_B, track_C#} \<and> p \<noteq> [] \<and>
        fill_queue (\<lambda>i. 0) None ex_fill = ex_fill\<lparr>queue := [track_A] @ p\<rparr>"
    by (simp add: ne c q)
  from e 1 ne 2 show ?thesis by simp
qed

subsection \<open>Fairness\<close>

lemma start_autoplay_timer_keeps:
  "queue (start_autoplay_timer dur now s) = queue s"
  "all_tracks (start_autoplay_timer dur now s) = all_tracks s"
  "play_counts (start_autoplay_timer dur now s) = play_counts s"
  "played_tracks (start_autoplay_timer dur now s) = played_tracks s"
  by (simp_all add: start_autoplay_timer_def Let_def split: option.splits)

lemma arm_keeps:
  "queue (arm_youtube t now s) = queue s"
  "all_tracks (arm_youtube t now s) = all_tracks s"
  "play_counts (arm_youtube t now s) = play_counts s"
  "played_tracks (arm_youtube t now s) = played_tracks s"
  "queue (arm_spotify k t now s) = queue s"
  "all_tracks (arm_spotify k t now s) = all_tracks s"
  "play_counts (arm_spotify k t now s) = play_counts s"
  "played_tracks (arm_spotify k t now s) = played_tracks s"
  by (simp_all add: arm_youtube_def arm_spotify_def start_autoplay_timer_keeps split: option.splits)

lemma play_track_queue: "queue (play_track ext now t s) = queue s"
  by (simp add: play_track_def Let_def arm_keeps split: open_outcome.splits)

lemma play_track_all_tracks: "all_tracks (play_track ext now t s) = all_tracks s"
  by (simp add: play_track_def Let_def arm_keeps split: open_outcome.splits)

lemma play_track_play_counts:
  "play_counts (play_track ext now t s) =
     AList.update (track_key t) (get_count (play_counts s) (track_key t) + 1) (play_counts s)"
  by (simp add: play_track_def Let_def arm_keeps split: open_outcome.splits)

lemma get_count_update:
  "get_count (AList.update k v pc) k' = (if k' = k then v else get_count pc k')"
  by (simp add: get_count_def update_conv')

lemma count_of_play_track:
  "count_of (play_track ext now t s) u =
     (if track_key u = track_key t then count_of s t + 1 else count_of s u)"
  by (simp add: count_of_def play_track_play_counts get_count_update)

lemma count_of_queue_upd [simp]: "count_of (s\<lparr>queue := q\<rparr>) = count_of s"
  by (simp add: count_of_def fun_eq_iff)

lemma fill_queue_keeps:
  "all_tracks (fill_queue rnd plat s) = all_tracks s"
  "play_counts (fill_queue rnd plat s) = play_counts s"
  by (simp_all add: fill_queue_eq)

lemma count_of_fill_queue [simp]: "count_of (fill_queue rnd plat s) = count_of s"
  by (simp add: count_of_def fun_eq_iff fill_queue_keeps)

lemma distinct_map_mset_cong:
  "mset p = mset q \<Longrightarrow> distinct (map f q) \<Longrightarrow> distinct (map f p)"
proof -
  assume a: "mset p = mset q" and d: "distinct (map f q)"
  from a have "mset (map f p) = mset (map f q)" by simp
  then have "distinct (map f p) = distinct (map f q)" by (rule mset_eq_imp_distinct_iff)
  with d show ?thesis by simp
qed

text \<open>Popping the head and playing it keeps the invariant.\<close>

lemma fair_inv_pop_play:
  assumes inv: "fair_inv s" and q: "queue s = t # rest"
  shows "fair_inv (play_track ext now t (s\<lparr>queue := rest\<rparr>))"
proof -
  from inv obtain m where
    cat: "\<forall>u \<in> set (all_tracks s). count_of s u = m \<or> count_of s u = m + 1" and
    qu: "\<forall>u \<in> set (queue s). count_of s u = m" and
    dq: "distinct (map track_key (queue s))" and
    dc: "distinct (map track_key (all_tracks s))"
    unfolding fair_inv_def by blast
  let ?s' = "play_track ext now t (s\<lparr>queue := rest\<rparr>)"
  have ct: "count_of s t = m" using qu q by simp
  have c': "count_of ?s' u = (if track_key u = track_key t then m + 1 else count_of s u)" for u
    by (simp add: count_of_play_track ct)
  have q': "queue ?s' = rest" by (simp add: play_track_queue)
  have a': "all_tracks ?s' = all_tracks s" by (simp add: play_track_all_tracks)
  have 1: "\<forall>u \<in> set (all_tracks ?s'). count_of ?s' u = m \<or> count_of ?s' u = m + 1"
    using cat by (simp add: a' c')
  from dq q have "track_key t \<notin> track_key ` set rest" by simp
  then have nk: "track_key u \<noteq> track_key t" if "u \<in> set rest" for u
    using that by (metis imageI)
  have 2: "\<forall>u \<in> set (queue ?s'). count_of ?s' u = m"
    using qu q nk by (simp add: q' c')
  have 3: "distinct (map track_key (queue ?s'))" using dq q by (simp add: q')
  have 4: "distinct (map track_key (all_tracks ?s'))" using dc by (simp add: a')
  from 1 2 3 4 show ?thesis unfolding fair_inv_def by blast
qed

text \<open>Refilling an empty queue keeps the invariant.\<close>

lemma fair_inv_fill:
  assumes inv: "fair_inv s" and q: "queue s = []"
  shows "fair_inv (fill_queue rnd None s)"
proof (cases "all_tracks s = []")
  case True
  then show ?thesis using inv by (simp add: fill_queue_eq slice_of_def)
next
  case False
  from inv obtain m where
    cat: "\<forall>u \<in> set (all_tracks s). count_of s u = m \<or> count_of s u = m + 1" and
    dc: "distinct (map track_key (all_tracks s))"
    unfolding fair_inv_def by blast
  let ?xs = "all_tracks s"
  let ?m = "min_list (map (count_of s) ?xs)"
  let ?c = "filter (\<lambda>t. count_of s t = ?m) ?xs"
  let ?s' = "fill_queue rnd None s"
  have eq: "?s' = s\<lparr>queue := shuffle rnd ?c\<rparr>"
    using False q by (simp add: fill_queue_eq slice_of_def)
  have mM: "?m = Min (count_of s ` set ?xs)" using False by (simp add: min_list_Min)
  have lower: "?m \<le> count_of s u" if "u \<in> set ?xs" for u
    unfolding mM using that by (intro Min_le) simp_all
  obtain w where w: "w \<in> set ?xs" "count_of s w = ?m"
    using min_list_attained [OF False, of "count_of s"] by blast
  have 1: "\<forall>u \<in> set (all_tracks ?s'). count_of ?s' u = ?m \<or> count_of ?s' u = ?m + 1"
  proof
    fix u assume "u \<in> set (all_tracks ?s')"
    then have u: "u \<in> set ?xs" by (simp add: eq)
    from cat u have cu: "count_of s u = m \<or> count_of s u = m + 1" by blast
    from cat w(1) have "count_of s w = m \<or> count_of s w = m + 1" by blast
    then have cw: "?m = m \<or> ?m = m + 1" unfolding w(2) .
    from lower [OF u] cu cw have "count_of s u = ?m \<or> count_of s u = ?m + 1" by linarith
    then show "count_of ?s' u = ?m \<or> count_of ?s' u = ?m + 1" by (simp add: eq)
  qed
  have 2: "\<forall>u \<in> set (queue ?s'). count_of ?s' u = ?m"
    by (simp add: eq set_shuffle)
  have "distinct (map track_key ?c)" using dc by (rule distinct_map_filter)
  then have 3: "distinct (map track_key (queue ?s'))"
    using distinct_map_mset_cong [OF mset_shuffle] by (simp add: eq)
  have 4: "distinct (map track_key (all_tracks ?s'))" using dc by (simp add: eq)
  from 1 2 3 4 show ?thesis unfolding fair_inv_def by blast
qed

lemma fair_inv_play_next:
  assumes "fair_inv s"
  shows "fair_inv (snd (play_next_from_queue rnd ext now s))"
proof -
  let ?s1 = "if queue s = [] then fill_queue rnd None s else s"
  have i1: "fair_inv ?s1" using assms by (simp add: fair_inv_fill)
  show ?thesis
  proof (cases "queue ?s1")
    case Nil
    then show ?thesis using i1 by (simp add: play_next_from_queue_def Let_def)
  next
    case (Cons t rest)
    then show ?thesis using fair_inv_pop_play [OF i1 Cons]
      by (simp add: play_next_from_queue_def Let_def)
  qed
qed

lemma fair_inv_advances: "fair_inv s \<Longrightarrow> fair_inv (advances cs s)"
  by (induction cs s rule: advances.induct) (simp_all add: fair_inv_play_next)

lemma play_next_all_tracks: "all_tracks (snd (play_next_from_queue rnd ext now s)) = all_tracks s"
  by (simp add: play_next_from_queue_def Let_def play_track_all_tracks fill_queue_keeps split: list.splits)

lemma advances_all_tracks: "all_tracks (advances cs s) = all_tracks s"
  by (induction cs s rule: advances.induct) (simp_all add: play_next_all_tracks)

text \<open>
  C1 (amended). From an empty queue and a catalog whose tracks have pairwise distinct
  identity keys and equal play counts, after any sequence of calls of
  \<open>_play_next_from_queue\<close> (whatever the shuffles draw and the surface does) the catalog
  is unchanged, the play counts of any two catalog tracks differ by at most 1, and a track
  has count at least \<open>n + 1\<close> only when every catalog track has count at least \<open>n\<close>.
\<close>

theorem fairness_distinct_keys:
  assumes "queue s = []"
    and "\<forall>t \<in> set (all_tracks s). count_of s t = c"
    and "distinct (map track_key (all_tracks s))"
  shows "all_tracks (advances cs s) = all_tracks s \<and>
         (\<forall>t \<in> set (all_tracks s). \<forall>u \<in> set (all_tracks s).
            \<bar>count_of (advances cs s) t - count_of (advances cs s) u\<bar> \<le> 1 \<and>
            (\<forall>n. n + 1 \<le> count_of (advances cs s) t \<longrightarrow> n \<le> count_of (advances cs s) u))"
proof -
  have "fair_inv s"
    unfolding fair_inv_def
    by (intro conjI exI [of _ c]) (use assms in simp_all)
  then have "fair_inv (advances cs s)" by (rule fair_inv_advances)
  then obtain m where
    "\<forall>u \<in> set (all_tracks s). count_of (advances cs s) u = m \<or> count_of (advances cs s) u = m + 1"
    unfolding fair_inv_def advances_all_tracks by blast
  then have m: "count_of (advances cs s) u = m \<or> count_of (advances cs s) u = m + 1"
    if "u \<in> set (all_tracks s)" for u
    using that by blast
  have "\<bar>count_of (advances cs s) t - count_of (advances cs s) u\<bar> \<le> 1 \<and>
        (\<forall>n. n + 1 \<le> count_of (advances cs s) t \<longrightarrow> n \<le> count_of (advances cs s) u)"
    if "t \<in> set (all_tracks s)" "u \<in> set (all_tracks s)" for t u
  proof -
    define a where "a = count_of (advances cs s) t"
    define b where "b = count_of (advances cs s) u"
    have ab: "(a = m \<or> a = m + 1) \<and> (b = m \<or> b = m + 1)"
      unfolding a_def b_def using m [OF that(1)] m [OF that(2)] by blast
    then have "\<bar>a - b\<bar> \<le> 1" by linarith
    moreover have "\<forall>n. n + 1 \<le> a \<longrightarrow> n \<le> b"
    proof (intro allI impI)
      fix n :: int assume "n + 1 \<le> a"
      with ab show "n \<le> b" by linarith
    qed
    ultimately show ?thesis unfolding a_def b_def by blast
  qed
  with advances_all_tracks [of cs s] show ?thesis by blast
qed

subsection \<open>Advancing from the queue\<close>

lemma play_next_nonempty:
  "queue s = t # rest \<Longrightarrow>
   play_next_from_queue rnd ext now s = (Played t, play_track ext now t (s\<lparr>queue := rest\<rparr>))"
  by (simp add: play_next_from_queue_def)

lemma play_next_refill:
  "queue s = [] \<Longrightarrow> queue (fill_queue rnd None s) = t # rest \<Longrightarrow>
   play_next_from_queue rnd ext now s =
     (Played t, play_track ext now t ((fill_queue rnd None s)\<lparr>queue := rest\<rparr>))"
  by (simp add: play_next_from_queue_def)

lemma play_next_nothing:
  "queue s = [] \<Longrightarrow> all_tracks s = [] \<Longrightarrow> play_next_from_queue rnd ext now s = (NoTracks, s)"
  by (simp add: play_next_from_queue_def fill_queue_eq slice_of_def)

lemma fill_queue_all_nonempty:
  assumes "all_tracks s \<noteq> []"
  shows "queue (fill_queue rnd None s) \<noteq> []"
proof -
  from assms have "slice_of None s \<noteq> []" by (simp add: slice_of_def)
  with fill_queue_appends_min_candidates [of None s rnd]
  obtain p where "p \<noteq> []" "fill_queue rnd None s = s\<lparr>queue := queue s @ p\<rparr>" by blast
  then show ?thesis by simp
qed

text \<open>
  C9. \<open>_play_next_from_queue\<close> plays the head of a non-empty queue; on an empty queue it
  first refills from the whole catalog and plays the head of the refilled queue; it takes
  the branch that only reports that there is nothing to play, leaving the state as it
  was, exactly when the queue and the catalog are both empty. The function is total: no
  path raises.
\<close>

theorem play_next_from_queue_cases:
  "(queue s \<noteq> [] \<longrightarrow>
      play_next_from_queue rnd ext now s =
        (Played (hd (queue s)), play_track ext now (hd (queue s)) (s\<lparr>queue := tl (queue s)\<rparr>))) \<and>
   (queue s = [] \<and> all_tracks s \<noteq> [] \<longrightarrow>
      (\<exists>t rest. queue (fill_queue rnd None s) = t # rest \<and>
         play_next_from_queue rnd ext now s =
           (Played t, play_track ext now t ((fill_queue rnd None s)\<lparr>queue := rest\<rparr>)))) \<and>
   (queue s = [] \<and> all_tracks s = [] \<longrightarrow> play_next_from_queue rnd ext now s = (NoTracks, s)) \<and>
   (fst (play_next_from_queue rnd ext now s) = NoTracks \<longleftrightarrow> queue s = [] \<and> all_tracks s = [])"
proof -
  have 1: "play_next_from_queue rnd ext now s =
        (Played (hd (queue s)), play_track ext now (hd (queue s)) (s\<lparr>queue := tl (queue s)\<rparr>))"
    if "queue s \<noteq> []"
  proof -
    from that obtain t rest where q: "queue s = t # rest" by (cases "queue s") auto
    then show ?thesis by (simp add: play_next_nonempty)
  qed
  have 2: "\<exists>t rest. queue (fill_queue rnd None s) = t # rest \<and>
         play_next_from_queue rnd ext now s =
           (Played t, play_track ext now t ((fill_queue rnd None s)\<lparr>queue := rest\<rparr>))"
    if "queue s = []" "all_tracks s \<noteq> []"
  proof -
    from fill_queue_all_nonempty [OF that(2), of rnd]
    obtain t rest where q: "queue (fill_queue rnd None s) = t # rest"
      by (cases "queue (fill_queue rnd None s)") auto
    with that(1) show ?thesis using play_next_refill by blast
  qed
  have 3: "play_next_from_queue rnd ext now s = (NoTracks, s)"
    if "queue s = []" "all_tracks s = []"
    using that by (rule play_next_nothing)
  have 4: "fst (play_next_from_queue rnd ext now s) = NoTracks \<longleftrightarrow> queue s = [] \<and> all_tracks s = []"
  proof (cases "queue s = []")
    case False
    with 1 show ?thesis by simp
  next
    case True
    show ?thesis
    proof (cases "all_tracks s = []")
      case True
      with \<open>queue s = []\<close> 3 show ?thesis by simp
    next
      case False
      with \<open>queue s = []\<close> 2 show ?thesis by auto
    qed
  qed
  from 1 2 3 4 show ?thesis by blast
qed

theorem play_next_from_queue_cases_witness:
  "queue ex_fill \<noteq> [] \<and>
   play_next_from_queue (\<lambda>i. 0) quiet 100 ex_fill =
     (Played track_A, play_track quiet 100 track_A (ex_fill\<lparr>queue := []\<rparr>)) \<and>
   queue ex_abc = [] \<and> all_tracks ex_abc \<noteq> [] \<and>
   (\<exists>t rest. queue (fill_queue (\<lambda>i. 0) None ex_abc) = t # rest \<and>
      play_next_from_queue (\<lambda>i. 0) quiet 100 ex_abc =
        (Played t, play_track quiet 100 t ((fill_queue (\<lambda>i. 0) None ex_abc)\<lparr>queue := rest\<rparr>))) \<and>
   queue init_player = [] \<and> all_tracks init_player = [] \<and>
   play_next_from_queue (\<lambda>i. 0) quiet 100 init_player = (NoTracks, init_player) \<and>
   fst (play_next_from_queue (\<lambda>i. 0) quiet 100 init_player) = NoTracks"
proof -
  have a: "queue ex_fill = [track_A]" by (simp add: ex_fill_def)
  have b: "queue ex_abc = []" "all_tracks ex_abc \<noteq> []"
    by (simp_all add: ex_abc_def init_player_def)
  have c: "queue init_player = []" "all_tracks init_player = []"
    by (simp_all add: init_player_def)
  from play_next_from_queue_cases [of ex_fill "\<lambda>i. 0" quiet 100] a
  have 1: "play_next_from_queue (\<lambda>i. 0) quiet 100 ex_fill =
     (Played track_A, play_track quiet 100 track_A (ex_fill\<lparr>queue := []\<rparr>))"
    by simp
  from play_next_from_queue_cases [of ex_abc "\<lambda>i. 0" quiet 100] b
  have 2: "\<exists>t rest. queue (fill_queue (\<lambda>i. 0) None ex_abc) = t # rest \<and>
      play_next_from_queue (\<lambda>i. 0) quiet 100 ex_abc =
        (Played t, play_track quiet 100 t ((fill_queue (\<lambda>i. 0) None ex_abc)\<lparr>queue := rest\<rparr>))"
    by blast
  from play_next_from_queue_cases [of init_player "\<lambda>i. 0" quiet 100] c
  have 3: "play_next_from_queue (\<lambda>i. 0) quiet 100 init_player = (NoTracks, init_player)"
    by blast
  from a b c 1 2 3 show ?thesis by simp
qed

subsection \<open>Fairness needs distinct keys\<close>

lemma shuffle3: "shuffle (\<lambda>i. 2) [a, b, c] = [b, a, c]"
  by (simp add: shuffle_def numeral_2_eq_2)

lemma ex_dup_fill:
  "fill_queue (\<lambda>i. 2) None ex_dup = ex_dup\<lparr>queue := [track_A, track_A, track_B]\<rparr>"
  by (simp add: fill_queue_eq slice_of_def ex_dup_def init_player_def count_of_def get_count_def shuffle3)

text \<open>
  C1 as stated fails on a catalog that lists a track twice: both copies are candidates of
  the same refill, and playing both takes their common key two plays ahead of the third
  track.
\<close>

theorem fairness_counterexample:
  "queue ex_dup = [] \<and> all_tracks ex_dup = [track_A, track_A, track_B] \<and>
   count_of ex_dup track_A = 0 \<and> count_of ex_dup track_B = 0 \<and>
   \<not> \<bar>count_of (advances [(\<lambda>i. 2, quiet, 100), (\<lambda>i. 2, quiet, 101)] ex_dup) track_A -
      count_of (advances [(\<lambda>i. 2, quiet, 100), (\<lambda>i. 2, quiet, 101)] ex_dup) track_B\<bar> \<le> 1"
proof -
  have q0: "queue ex_dup = []" by (simp add: ex_dup_def init_player_def)
  have a0: "all_tracks ex_dup = [track_A, track_A, track_B]" by (simp add: ex_dup_def)
  have c0: "count_of ex_dup t = 0" for t
    by (simp add: count_of_def get_count_def ex_dup_def init_player_def)
  let ?s0 = "ex_dup\<lparr>queue := [track_A, track_B]\<rparr>"
  let ?s1 = "play_track quiet 100 track_A ?s0"
  have s1: "snd (play_next_from_queue (\<lambda>i. 2) quiet 100 ex_dup) = ?s1"
    using play_next_refill [OF q0, of "\<lambda>i. 2" track_A "[track_A, track_B]" quiet 100]
    by (simp add: ex_dup_fill)
  have q1: "queue ?s1 = [track_A, track_B]" by (simp add: play_track_queue)
  let ?s2 = "play_track quiet 101 track_A (?s1\<lparr>queue := [track_B]\<rparr>)"
  have s2: "snd (play_next_from_queue (\<lambda>i. 2) quiet 101 ?s1) = ?s2"
    using play_next_nonempty [OF q1, of "\<lambda>i. 2" quiet 101] by simp
  have adv: "advances [(\<lambda>i. 2, quiet, 100), (\<lambda>i. 2, quiet, 101)] ex_dup = ?s2"
    by (simp add: s1 s2)
  have cA: "count_of ?s2 track_A = 2" by (simp add: count_of_play_track c0)
  have cB: "count_of ?s2 track_B = 0" by (simp add: count_of_play_track c0)
  show ?thesis unfolding adv cA cB using q0 a0 c0 by simp
qed

theorem fairness_distinct_keys_witness:
  "queue ex_abc = [] \<and>
   all_tracks ex_abc = [track_A, track_B, track_C] \<and>
   count_of ex_abc track_A = 0 \<and> count_of ex_abc track_B = 0 \<and> count_of ex_abc track_C = 0 \<and>
   distinct (map track_key (all_tracks ex_abc)) \<and>
   all_tracks (advances [(\<lambda>i. 2, quiet, 100), (\<lambda>i. 0, quiet, 101)] ex_abc) = all_tracks ex_abc \<and>
   \<bar>count_of (advances [(\<lambda>i. 2, quiet, 100), (\<lambda>i. 0, quiet, 101)] ex_abc) track_A -
     count_of (advances [(\<lambda>i. 2, quiet, 100), (\<lambda>i. 0, quiet, 101)] ex_abc) track_C\<bar> \<le> 1 \<and>
   \<bar>count_of (advances [(\<lambda>i. 2, quiet, 100), (\<lambda>i. 0, quiet, 101)] ex_abc) track_B -
     count_of (advances [(\<lambda>i. 2, quiet, 100), (\<lambda>i. 0, quiet, 101)] ex_abc) track_C\<bar> \<le> 1"
proof -
  have q0: "queue ex_abc = []" by (simp add: ex_abc_def init_player_def)
  have a0: "all_tracks ex_abc = [track_A, track_B, track_C]" by (simp add: ex_abc_def)
  have c0: "\<forall>t \<in> set (all_tracks ex_abc). count_of ex_abc t = 0"
    by (simp add: count_of_def get_count_def ex_abc_def init_player_def)
  have d0: "distinct (map track_key (all_tracks ex_abc))"
    by (simp add: ex_abc_def)
  from fairness_distinct_keys [OF q0 c0 d0, of "[(\<lambda>i. 2, quiet, 100), (\<lambda>i. 0, quiet, 101)]"]
  have "all_tracks (advances [(\<lambda>i. 2, quiet, 100), (\<lambda>i. 0, quiet, 101)] ex_abc) = all_tracks ex_abc"
    "\<bar>count_of (advances [(\<lambda>i. 2, quiet, 100), (\<lambda>i. 0, quiet, 101)] ex_abc) track_A -
     count_of (advances [(\<lambda>i. 2, quiet, 100), (\<lambda>i. 0, quiet, 101)] ex_abc) track_C\<bar> \<le> 1"
    "\<bar>count_of (advances [(\<lambda>i. 2, quiet, 100), (\<lambda>i. 0, quiet, 101)] ex_abc) track_B -
     count_of (advances [(\<lambda>i. 2, quiet, 100), (\<lambda>i. 0, quiet, 101)] ex_abc) track_C\<bar> \<le> 1"
    by (simp_all add: a0)
  with q0 a0 c0 d0 show ?thesis by simp
qed

subsection \<open>Catalog synchronisation\<close>

lemma filter_keep_all: "filter (\<lambda>t. \<not> P t) q = [] \<Longrightarrow> filter P q = q"
  by (induction q) (auto split: if_splits)

lemma reconcile_eq:
  "reconcile q old new =
     filter (\<lambda>t. url t \<in> url ` set new) q @
     filter (\<lambda>t. url t \<notin> url ` set old \<and> url t \<notin> url ` set q) new"
proof -
  let ?q2 = "filter (\<lambda>t. url t \<in> url ` set new) q"
  have q2: "(if filter (\<lambda>t. url t \<notin> set (map url new)) q \<noteq> []
             then filter (\<lambda>t. url t \<in> set (map url new)) q else q) = ?q2"
    using filter_keep_all [of "\<lambda>t. url t \<in> url ` set new" q] by auto
  have mem: "url t \<notin> url ` set ?q2 \<longleftrightarrow> url t \<notin> url ` set q" if "t \<in> set new" for t
  proof -
    have "url t \<in> url ` set ?q2" if "url t \<in> url ` set q"
    proof -
      from that obtain x where x: "x \<in> set q" "url x = url t" by auto
      with \<open>t \<in> set new\<close> have "url x \<in> url ` set new" by simp
      with x have "x \<in> set ?q2" by simp
      with x show ?thesis by (metis imageI)
    qed
    moreover have "url t \<in> url ` set q" if "url t \<in> url ` set ?q2"
      using that by auto
    ultimately show ?thesis by blast
  qed
  have f: "filter (\<lambda>t. url t \<notin> set (map url ?q2)) (filter (\<lambda>t. url t \<notin> set (map url old)) new) =
           filter (\<lambda>t. url t \<notin> url ` set old \<and> url t \<notin> url ` set q) new"
    using mem by (auto intro!: filter_cong)
  have e: "filter (\<lambda>t. url t \<notin> url ` set old \<and> url t \<notin> url ` set q) new = []"
    if "filter (\<lambda>t. url t \<notin> set (map url old)) new = []"
    using that by (auto simp: filter_empty_conv)
  show ?thesis
    unfolding reconcile_def Let_def q2 f using e by auto
qed

lemma install_tracks_fields:
  "youtube_tracks (install_tracks ny ns s) = ny"
  "spotify_tracks (install_tracks ny ns s) = ns"
  "all_tracks (install_tracks ny ns s) = ny @ ns"
  "play_counts (install_tracks ny ns s) = play_counts s"
  by (simp_all add: install_tracks_def Let_def)

lemma install_queue_aux:
  "queue
     (let old_all_tracks = all_tracks s;
          s1 = s\<lparr>youtube_tracks := ny, spotify_tracks := ns, all_tracks := nw\<rparr>;
          removed_tracks = filter (\<lambda>t. url t \<notin> set (map url (all_tracks s1))) (queue s1);
          s2 = (if removed_tracks \<noteq> []
                then s1\<lparr>queue := filter (\<lambda>t. url t \<in> set (map url (all_tracks s1))) (queue s1)\<rparr>
                else s1);
          new_tracks = filter (\<lambda>t. url t \<notin> set (map url old_all_tracks)) (all_tracks s2)
      in if new_tracks \<noteq> []
         then s2\<lparr>queue := queue s2 @ filter (\<lambda>t. url t \<notin> set (map url (queue s2))) new_tracks\<rparr>
         else s2) =
   reconcile (queue s) (all_tracks s) nw"
  by (cases "filter (\<lambda>t. url t \<notin> set (map url nw)) (queue s) = []";
      cases "filter (\<lambda>t. url t \<notin> set (map url (all_tracks s))) nw = []")
     (simp_all add: Let_def reconcile_def)

lemma install_tracks_queue:
  "queue (install_tracks ny ns s) = reconcile (queue s) (all_tracks s) (ny @ ns)"
  unfolding install_tracks_def by (rule install_queue_aux)

lemma load_playlists_youtube_tracks:
  "youtube_tracks (load_playlists y su ci cs silent yt sp s) =
     (if y \<noteq> []
      then filter (\<lambda>t. count_of s t = min_count_of s)
             (if \<not> silent then fetch_videos yt else fetch_youtube_silent yt s)
      else [])"
  by (simp add: load_playlists_def Let_def install_tracks_fields count_of_def min_count_of_def
      fetch_youtube_silent_def split: fetch_outcome.splits)

lemma load_playlists_spotify_tracks:
  "spotify_tracks (load_playlists y su ci cs silent yt sp s) =
     (if su \<noteq> [] \<and> ci \<noteq> [] \<and> cs \<noteq> []
      then filter (\<lambda>t. count_of s t = min_count_of s)
             (if \<not> silent then fetch_tracks sp else fetch_spotify_silent sp s)
      else [])"
  by (simp add: load_playlists_def Let_def install_tracks_fields count_of_def min_count_of_def
      fetch_spotify_silent_def split: fetch_outcome.splits)

lemma load_playlists_all_tracks:
  "all_tracks (load_playlists y su ci cs silent yt sp s) =
     youtube_tracks (load_playlists y su ci cs silent yt sp s) @
     spotify_tracks (load_playlists y su ci cs silent yt sp s)"
  by (simp add: load_playlists_def Let_def install_tracks_fields)

lemma load_playlists_queue_reconcile:
  "queue (load_playlists y su ci cs silent yt sp s) =
     reconcile (queue s) (all_tracks s) (all_tracks (load_playlists y su ci cs silent yt sp s))"
  by (simp add: load_playlists_def Let_def install_tracks_fields install_tracks_queue)

text \<open>
  C3. After \<open>load_playlists\<close> the queue holds no entry whose URL is absent from the new
  catalog; every entry of the new catalog whose URL is neither in the old catalog nor in
  the old queue is in the queue; and the queue is exactly the old queue restricted to the
  URLs of the new catalog, in its old order, followed by those new entries in catalog
  order. Membership is by URL throughout.
\<close>

theorem reconciliation:
  "(\<forall>t \<in> set (queue (load_playlists y su ci cs silent yt sp s)).
      url t \<in> url ` set (all_tracks (load_playlists y su ci cs silent yt sp s))) \<and>
   (\<forall>t \<in> set (all_tracks (load_playlists y su ci cs silent yt sp s)).
      url t \<notin> url ` set (all_tracks s) \<and> url t \<notin> url ` set (queue s) \<longrightarrow>
      t \<in> set (queue (load_playlists y su ci cs silent yt sp s))) \<and>
   queue (load_playlists y su ci cs silent yt sp s) =
     filter (\<lambda>t. url t \<in> url ` set (all_tracks (load_playlists y su ci cs silent yt sp s)))
            (queue s) @
     filter (\<lambda>t. url t \<notin> url ` set (all_tracks s) \<and> url t \<notin> url ` set (queue s))
            (all_tracks (load_playlists y su ci cs silent yt sp s))"
proof -
  define s' where "s' = load_playlists y su ci cs silent yt sp s"
  have q: "queue s' =
     filter (\<lambda>t. url t \<in> url ` set (all_tracks s')) (queue s) @
     filter (\<lambda>t. url t \<notin> url ` set (all_tracks s) \<and> url t \<notin> url ` set (queue s))
            (all_tracks s')"
    unfolding s'_def load_playlists_queue_reconcile reconcile_eq ..
  have a: "\<forall>t \<in> set (queue s'). url t \<in> url ` set (all_tracks s')"
    by (subst q) auto
  have b: "\<forall>t \<in> set (all_tracks s').
      url t \<notin> url ` set (all_tracks s) \<and> url t \<notin> url ` set (queue s) \<longrightarrow> t \<in> set (queue s')"
  proof (intro ballI impI)
    fix t assume "t \<in> set (all_tracks s')"
      and "url t \<notin> url ` set (all_tracks s) \<and> url t \<notin> url ` set (queue s)"
    then have "t \<in> set (filter (\<lambda>t. url t \<notin> url ` set (all_tracks s) \<and> url t \<notin> url ` set (queue s))
            (all_tracks s'))" by simp
    then show "t \<in> set (queue s')" by (subst q) simp
  qed
  from a b q show ?thesis unfolding s'_def by blast
qed

lemma example_urls [simp]:
  "url track_A = ''https://www.youtube.com/watch?v=A''"
  "url track_B = ''https://www.youtube.com/watch?v=B''"
  "url track_C = ''https://www.youtube.com/watch?v=C''"
  by (simp_all add: track_A_def track_B_def track_C_def yt_track_def)

lemma min_count_of_init [simp]: "min_count_of init_player = 0"
  by (simp add: min_count_of_def init_player_def)

lemma count_of_init [simp]: "count_of init_player t = 0"
  by (simp add: count_of_def get_count_def init_player_def)

lemma ex_loaded_fields:
  "youtube_tracks ex_loaded = [track_A, track_B]"
  "spotify_tracks ex_loaded = []"
  "all_tracks ex_loaded = [track_A, track_B]"
  "queue ex_loaded = [track_A, track_B]"
  "play_counts ex_loaded = []"
proof -
  show y: "youtube_tracks ex_loaded = [track_A, track_B]"
    by (simp add: ex_loaded_def load_playlists_youtube_tracks fetch_videos_def)
  show p: "spotify_tracks ex_loaded = []"
    by (simp add: ex_loaded_def load_playlists_spotify_tracks)
  show a: "all_tracks ex_loaded = [track_A, track_B]"
    using y p by (simp add: ex_loaded_def load_playlists_all_tracks)
  show "queue ex_loaded = [track_A, track_B]"
    using a by (simp add: ex_loaded_def load_playlists_queue_reconcile reconcile_eq init_player_def)
  show "play_counts ex_loaded = []"
    by (simp add: ex_loaded_def load_playlists_def Let_def install_tracks_fields init_player_def)
qed

lemma min_count_of_eq:
  "min_count_of s = (if all_tracks s = [] then 0 else min_list (map (count_of s) (all_tracks s)))"
proof -
  have "(\<lambda>t. get_count (play_counts s) (track_key t)) = count_of s"
    by (simp add: count_of_def fun_eq_iff)
  then show ?thesis by (simp add: min_count_of_def Let_def)
qed

text \<open>
  C4 (amended). In a silent cycle in which the fetch of a source fails, the list
  published for that source is the previous list of that source restricted to the tracks
  whose play count equals the minimum count over the old catalog; it equals the previous
  list when all its tracks are at that minimum.
\<close>

theorem silent_failure_refilters_previous_list:
  "(y \<noteq> [] \<longrightarrow>
      youtube_tracks (load_playlists y su ci cs True FetchFailed sp s) =
        filter (\<lambda>t. count_of s t = min_count_of s) (youtube_tracks s)) \<and>
   (su \<noteq> [] \<and> ci \<noteq> [] \<and> cs \<noteq> [] \<longrightarrow>
      spotify_tracks (load_playlists y su ci cs True yt FetchFailed s) =
        filter (\<lambda>t. count_of s t = min_count_of s) (spotify_tracks s)) \<and>
   (y \<noteq> [] \<and> (\<forall>t \<in> set (youtube_tracks s). count_of s t = min_count_of s) \<longrightarrow>
      youtube_tracks (load_playlists y su ci cs True FetchFailed sp s) = youtube_tracks s) \<and>
   (su \<noteq> [] \<and> ci \<noteq> [] \<and> cs \<noteq> [] \<and>
    (\<forall>t \<in> set (spotify_tracks s). count_of s t = min_count_of s) \<longrightarrow>
      spotify_tracks (load_playlists y su ci cs True yt FetchFailed s) = spotify_tracks s)"
  by (simp add: load_playlists_youtube_tracks load_playlists_spotify_tracks
      fetch_youtube_silent_def fetch_spotify_silent_def)

lemma play_track_source_lists:
  "youtube_tracks (play_track ext now t s) = youtube_tracks s"
  "spotify_tracks (play_track ext now t s) = spotify_tracks s"
  by (simp_all add: play_track_def Let_def arm_youtube_def arm_spotify_def start_autoplay_timer_def
      split: open_outcome.splits option.splits)

lemma ex_played_eq: "ex_played = play_track quiet 100 track_A (ex_loaded\<lparr>queue := [track_B]\<rparr>)"
  by (simp add: ex_played_def play_next_nonempty [OF ex_loaded_fields(4)])

lemma count_of_ex_loaded: "count_of ex_loaded t = 0"
  by (simp add: count_of_def get_count_def ex_loaded_fields)

lemma ex_played_fields:
  "youtube_tracks ex_played = [track_A, track_B]"
  "all_tracks ex_played = [track_A, track_B]"
  "count_of ex_played track_A = 1"
  "count_of ex_played track_B = 0"
  by (simp_all add: ex_played_eq play_track_source_lists play_track_all_tracks count_of_play_track
      ex_loaded_fields count_of_ex_loaded)

lemma ex_played_min: "min_count_of ex_played = 0"
  by (simp add: min_count_of_eq ex_played_fields)

text \<open>
  C4 as stated fails after one track has been played: the list that the failed silent
  fetch hands back goes through the minimum-count filter like any fetched list, and the
  track just played is dropped from the published list.
\<close>

theorem silent_failure_counterexample:
  "youtube_tracks ex_played = [track_A, track_B] \<and>
   youtube_tracks (load_playlists ''yt'' [] [] [] True FetchFailed FetchFailed ex_played) = [track_B] \<and>
   youtube_tracks (load_playlists ''yt'' [] [] [] True FetchFailed FetchFailed ex_played) \<noteq>
     youtube_tracks ex_played"
  by (simp add: load_playlists_youtube_tracks fetch_youtube_silent_def ex_played_fields ex_played_min)

theorem silent_failure_refilters_previous_list_witness:
  "''yt'' \<noteq> [] \<and>
   youtube_tracks (load_playlists ''yt'' [] [] [] True FetchFailed FetchFailed ex_played) = [track_B] \<and>
   youtube_tracks ex_loaded = [track_A, track_B] \<and>
   count_of ex_loaded track_A = min_count_of ex_loaded \<and>
   count_of ex_loaded track_B = min_count_of ex_loaded \<and>
   youtube_tracks (load_playlists ''yt'' [] [] [] True FetchFailed FetchFailed ex_loaded) =
     [track_A, track_B] \<and>
   ''sp'' \<noteq> [] \<and> ''id'' \<noteq> [] \<and> ''key'' \<noteq> [] \<and>
   spotify_tracks ex_spot = [sp_track ''S'' 10] \<and>
   count_of ex_spot (sp_track ''S'' 10) = min_count_of ex_spot \<and>
   spotify_tracks (load_playlists [] ''sp'' ''id'' ''key'' True FetchFailed FetchFailed ex_spot) =
     [sp_track ''S'' 10]"
proof -
  have l: "\<forall>t \<in> set (youtube_tracks ex_loaded). count_of ex_loaded t = min_count_of ex_loaded"
    by (simp add: min_count_of_eq ex_loaded_fields count_of_def get_count_def)
  have p: "\<forall>t \<in> set (spotify_tracks ex_spot). count_of ex_spot t = min_count_of ex_spot"
    by (simp add: min_count_of_eq ex_spot_def count_of_def get_count_def init_player_def)
  have 1: "youtube_tracks (load_playlists ''yt'' [] [] [] True FetchFailed FetchFailed ex_played) = [track_B]"
    using silent_failure_refilters_previous_list [of "''yt''" "[]" "[]" "[]" FetchFailed ex_played FetchFailed]
    by (simp add: ex_played_fields ex_played_min)
  have 2: "youtube_tracks (load_playlists ''yt'' [] [] [] True FetchFailed FetchFailed ex_loaded) =
     [track_A, track_B]"
    using silent_failure_refilters_previous_list [of "''yt''" "[]" "[]" "[]" FetchFailed ex_loaded FetchFailed] l
    by (simp add: ex_loaded_fields)
  have 3: "spotify_tracks (load_playlists [] ''sp'' ''id'' ''key'' True FetchFailed FetchFailed ex_spot) =
     [sp_track ''S'' 10]"
    using silent_failure_refilters_previous_list [of "[]" "''sp''" "''id''" "''key''" FetchFailed ex_spot FetchFailed] p
    by (simp add: ex_spot_def)
  from l p 1 2 3 show ?thesis by (simp add: ex_loaded_fields) (simp add: ex_spot_def)
qed

theorem reconciliation_witness:
  "all_tracks (load_playlists ''yt'' [] [] [] True (Fetched [track_A, track_C]) FetchFailed ex_sync3) =
     [track_A, track_C] \<and>
   queue (load_playlists ''yt'' [] [] [] True (Fetched [track_A, track_C]) FetchFailed ex_sync3) =
     [track_A, track_C] \<and>
   queue ex_sync3 = [track_A, track_B, track_C] \<and>
   track_A \<in> set (all_tracks ex_loaded) \<and>
   url track_A \<notin> url ` set (all_tracks init_player) \<and>
   url track_A \<notin> url ` set (queue init_player) \<and>
   track_A \<in> set (queue ex_loaded)"
proof -
  let ?s' = "load_playlists ''yt'' [] [] [] True (Fetched [track_A, track_C]) FetchFailed ex_sync3"
  have c: "count_of ex_sync3 t = 0" for t
    by (simp add: count_of_def get_count_def ex_sync3_def init_player_def)
  have old: "all_tracks ex_sync3 = [track_A, track_B, track_C]"
    "queue ex_sync3 = [track_A, track_B, track_C]"
    by (simp_all add: ex_sync3_def)
  have m: "min_count_of ex_sync3 = 0"
    by (simp add: min_count_of_eq old c)
  have a: "all_tracks ?s' = [track_A, track_C]"
    by (simp add: load_playlists_all_tracks load_playlists_youtube_tracks
        load_playlists_spotify_tracks fetch_youtube_silent_def c m)
  from reconciliation [of "''yt''" "[]" "[]" "[]" True "Fetched [track_A, track_C]" FetchFailed ex_sync3]
  have q: "queue ?s' = [track_A, track_C]" and
    u: "\<forall>t \<in> set (queue ?s'). url t \<in> url ` set (all_tracks ?s')"
    by (simp_all add: a old)
  have i: "all_tracks init_player = []" "queue init_player = []"
    by (simp_all add: init_player_def)
  from reconciliation [of "''yt''" "[]" "[]" "[]" False "Fetched [track_A, track_B]" FetchFailed init_player]
  have "track_A \<in> set (queue ex_loaded)"
    unfolding ex_loaded_def [symmetric] by (simp add: ex_loaded_fields i)
  with a q old i show ?thesis by (simp add: ex_loaded_fields)
qed

subsection \<open>The autoplay timer\<close>

lemma cancel_timer_not_live: "h \<notin> fst ` set (cancel_timer h lt)"
  by (auto simp: cancel_timer_def)

text \<open>
  C6 (amended). \<open>_start_autoplay_timer\<close> with no duration or a duration \<open>\<le> 0\<close> returns
  at once and leaves the whole state as it was: nothing is cancelled, so an unarmed timer
  stays unarmed and an armed one stays armed. With a positive duration the previous
  timer, if any, is cancelled and a new countdown is armed with start time \<open>now\<close> and
  the given duration, the pause bookkeeping cleared.
\<close>

theorem arm_semantics:
  "start_autoplay_timer None now s = s \<and>
   (d \<le> 0 \<longrightarrow> start_autoplay_timer (Some d) now s = s) \<and>
   (0 < d \<longrightarrow>
      autoplay_start_time (start_autoplay_timer (Some d) now s) = Some now \<and>
      autoplay_duration (start_autoplay_timer (Some d) now s) = Some d \<and>
      autoplay_remaining (start_autoplay_timer (Some d) now s) = None \<and>
      \<not> autoplay_paused (start_autoplay_timer (Some d) now s) \<and>
      autoplay_timer (start_autoplay_timer (Some d) now s) = Some (next_timer s) \<and>
      live_timers (start_autoplay_timer (Some d) now s) =
        (case autoplay_timer s of
           Some h \<Rightarrow> cancel_timer h (live_timers s)
         | None \<Rightarrow> live_timers s) @ [(next_timer s, d)] \<and>
      (\<forall>h. autoplay_timer s = Some h \<and> h \<noteq> next_timer s \<longrightarrow>
           h \<notin> fst ` set (live_timers (start_autoplay_timer (Some d) now s))))"
  using cancel_timer_not_live
  by (auto simp: start_autoplay_timer_def Let_def split: option.splits)

lemma ex_armed_fields:
  "autoplay_timer ex_armed = Some 0"
  "live_timers ex_armed = [(0, 10)]"
  "autoplay_start_time ex_armed = Some 100"
  "autoplay_duration ex_armed = Some 10"
  "\<not> autoplay_paused ex_armed"
  "next_timer ex_armed = 1"
  "autoplay_remaining ex_armed = None"
  by (simp_all add: ex_armed_def start_autoplay_timer_def init_player_def)

text \<open>
  C6 as stated fails where a timer is armed and the new duration is not positive: the
  old countdown is neither cancelled nor replaced.
\<close>

theorem arm_counterexample:
  "autoplay_timer ex_armed = Some 0 \<and> live_timers ex_armed = [(0, 10)] \<and>
   autoplay_timer (start_autoplay_timer (Some 0) 105 ex_armed) = Some 0 \<and>
   (0, 10) \<in> set (live_timers (start_autoplay_timer (Some 0) 105 ex_armed)) \<and>
   autoplay_duration (start_autoplay_timer (Some 0) 105 ex_armed) = Some 10"
  by (simp add: ex_armed_fields) (simp add: start_autoplay_timer_def ex_armed_fields)

theorem arm_semantics_witness:
  "start_autoplay_timer (Some (-1)) 105 ex_armed = ex_armed \<and>
   (0::real) < 30 \<and>
   autoplay_start_time (start_autoplay_timer (Some 30) 105 ex_armed) = Some 105 \<and>
   autoplay_duration (start_autoplay_timer (Some 30) 105 ex_armed) = Some 30 \<and>
   autoplay_timer (start_autoplay_timer (Some 30) 105 ex_armed) = Some 1 \<and>
   live_timers (start_autoplay_timer (Some 30) 105 ex_armed) = [(1, 30)] \<and>
   autoplay_timer ex_armed = Some 0 \<and> 0 \<noteq> next_timer ex_armed \<and>
   0 \<notin> fst ` set (live_timers (start_autoplay_timer (Some 30) 105 ex_armed))"
proof -
  from arm_semantics [of 105 ex_armed "-1"]
  have 1: "start_autoplay_timer (Some (-1)) 105 ex_armed = ex_armed" by simp
  from arm_semantics [of 105 ex_armed 30]
  have 2: "autoplay_start_time (start_autoplay_timer (Some 30) 105 ex_armed) = Some 105"
    "autoplay_duration (start_autoplay_timer (Some 30) 105 ex_armed) = Some 30"
    "autoplay_timer (start_autoplay_timer (Some 30) 105 ex_armed) = Some 1"
    "live_timers (start_autoplay_timer (Some 30) 105 ex_armed) = [(1, 30)]"
    by (simp_all add: ex_armed_fields cancel_timer_def)
  from 1 2 show ?thesis by (simp add: ex_armed_fields)
qed

lemma pause_armed:
  assumes "autoplay_timer s = Some h" "\<not> autoplay_paused s"
    "autoplay_start_time s = Some st" "st \<noteq> 0" "autoplay_duration s = Some d" "d \<noteq> 0"
  shows "pause_playback ok now s =
           (ok, s\<lparr>live_timers := cancel_timer h (live_timers s),
                  autoplay_timer := None,
                  autoplay_remaining := Some (max (1 / 10) (d - (now - st))),
                  autoplay_paused := True\<rparr>)"
  using assms by (simp add: pause_playback_def Let_def)

lemma resume_paused:
  assumes "autoplay_paused s" "autoplay_remaining s = Some r"
  shows "pause_playback ok now s =
           (ok, (start_autoplay_timer (Some r) now s)
                  \<lparr>autoplay_remaining := None, autoplay_paused := False\<rparr>)"
  using assms by (simp add: pause_playback_def Let_def)

text \<open>
  C5. Pausing while the timer is armed (a timer handle is set, not paused, start time and
  duration are recorded and truthy, as a positive duration and a clock reading other than
  0.0 are) cancels the countdown, clears the handle, records
  \<open>remaining = max 0.1 (duration - (now - start_time))\<close> and sets the paused flag; the
  next call, resuming, arms a new countdown whose duration is that recorded value and whose
  start time is the clock reading of the resume, and clears the paused bookkeeping.
\<close>

theorem pause_resume_arithmetic:
  assumes "autoplay_timer s = Some h" and "\<not> autoplay_paused s"
    and "autoplay_start_time s = Some st" and "st \<noteq> 0"
    and "autoplay_duration s = Some d" and "d \<noteq> 0"
  shows "autoplay_timer (snd (pause_playback ok now s)) = None \<and>
         h \<notin> fst ` set (live_timers (snd (pause_playback ok now s))) \<and>
         autoplay_remaining (snd (pause_playback ok now s)) = Some (max (1 / 10) (d - (now - st))) \<and>
         autoplay_paused (snd (pause_playback ok now s)) \<and>
         autoplay_duration (snd (pause_playback ok' now' (snd (pause_playback ok now s)))) =
           Some (max (1 / 10) (d - (now - st))) \<and>
         autoplay_start_time (snd (pause_playback ok' now' (snd (pause_playback ok now s)))) =
           Some now' \<and>
         autoplay_remaining (snd (pause_playback ok' now' (snd (pause_playback ok now s)))) = None \<and>
         \<not> autoplay_paused (snd (pause_playback ok' now' (snd (pause_playback ok now s)))) \<and>
         autoplay_timer (snd (pause_playback ok' now' (snd (pause_playback ok now s)))) =
           Some (next_timer s) \<and>
         (next_timer s, max (1 / 10) (d - (now - st))) \<in>
           set (live_timers (snd (pause_playback ok' now' (snd (pause_playback ok now s)))))"
proof -
  let ?r = "max (1 / 10) (d - (now - st))"
  let ?s1 = "s\<lparr>live_timers := cancel_timer h (live_timers s), autoplay_timer := None,
               autoplay_remaining := Some ?r, autoplay_paused := True\<rparr>"
  have p: "snd (pause_playback ok now s) = ?s1"
    using pause_armed [OF assms] by simp
  have pos: "0 < ?r" by simp
  have r: "snd (pause_playback ok' now' ?s1) =
        (start_autoplay_timer (Some ?r) now' ?s1)\<lparr>autoplay_remaining := None, autoplay_paused := False\<rparr>"
    using resume_paused [of ?s1 ?r ok' now'] by simp
  have nl: "h \<notin> fst ` set (live_timers ?s1)"
    using cancel_timer_not_live [of h "live_timers s"] by simp
  from pos have a:
    "autoplay_duration (start_autoplay_timer (Some ?r) now' ?s1) = Some ?r"
    "autoplay_start_time (start_autoplay_timer (Some ?r) now' ?s1) = Some now'"
    "autoplay_timer (start_autoplay_timer (Some ?r) now' ?s1) = Some (next_timer s)"
    "live_timers (start_autoplay_timer (Some ?r) now' ?s1) =
       cancel_timer h (live_timers s) @ [(next_timer s, ?r)]"
    by (simp_all add: start_autoplay_timer_def Let_def)
  show ?thesis
    unfolding p r using nl a by simp
qed

theorem pause_resume_arithmetic_witness:
  "autoplay_timer ex_armed = Some 0 \<and> \<not> autoplay_paused ex_armed \<and>
   autoplay_start_time ex_armed = Some 100 \<and> (100::real) \<noteq> 0 \<and>
   autoplay_duration ex_armed = Some 10 \<and> (10::real) \<noteq> 0 \<and>
   autoplay_timer (snd (pause_playback True 103 ex_armed)) = None \<and>
   autoplay_remaining (snd (pause_playback True 103 ex_armed)) = Some 7 \<and>
   autoplay_paused (snd (pause_playback True 103 ex_armed)) \<and>
   autoplay_duration (snd (pause_playback True 200 (snd (pause_playback True 103 ex_armed)))) = Some 7 \<and>
   autoplay_start_time (snd (pause_playback True 200 (snd (pause_playback True 103 ex_armed)))) = Some 200 \<and>
   autoplay_timer (snd (pause_playback True 200 (snd (pause_playback True 103 ex_armed)))) = Some 1 \<and>
   autoplay_remaining (snd (pause_playback True 150 ex_armed)) = Some (1 / 10)"
proof -
  have m: "max (1 / 10) (10 - (103 - 100)) = (7::real)" "max (1 / 10) (10 - (150 - 100)) = (1 / 10 :: real)"
    by simp_all
  from pause_resume_arithmetic [where s = ex_armed and h = 0 and st = 100 and d = 10
      and ok = True and now = 103 and ok' = True and now' = 200]
  have 1: "autoplay_timer (snd (pause_playback True 103 ex_armed)) = None"
    "autoplay_remaining (snd (pause_playback True 103 ex_armed)) = Some 7"
    "autoplay_paused (snd (pause_playback True 103 ex_armed))"
    "autoplay_duration (snd (pause_playback True 200 (snd (pause_playback True 103 ex_armed)))) = Some 7"
    "autoplay_start_time (snd (pause_playback True 200 (snd (pause_playback True 103 ex_armed)))) = Some 200"
    "autoplay_timer (snd (pause_playback True 200 (snd (pause_playback True 103 ex_armed)))) = Some 1"
    unfolding m by (simp_all add: ex_armed_fields)
  from pause_resume_arithmetic [where s = ex_armed and h = 0 and st = 100 and d = 10
      and ok = True and now = 150 and ok' = True and now' = 200]
  have 2: "autoplay_remaining (snd (pause_playback True 150 ex_armed)) = Some (1 / 10)"
    unfolding m by (simp add: ex_armed_fields)
  from 1 2 show ?thesis by (simp add: ex_armed_fields)
qed

text \<open>
  C10 (amended). With no current track title, no timer handle and the paused flag clear,
  \<open>pause_playback\<close> leaves the player state as it was and returns \<open>True\<close> when the
  space key press was sent, \<open>False\<close> only when the key press raised.
\<close>

theorem pause_without_session:
  assumes "current_track_title s = None" and "autoplay_timer s = None" and "\<not> autoplay_paused s"
  shows "pause_playback space_ok now s = (space_ok, s)"
  using assms by (simp add: pause_playback_def)

text \<open>
  C10 as stated fails: on a player with no session the call reports \<open>True\<close>.
\<close>

theorem pause_without_session_counterexample:
  "current_track_title init_player = None \<and> autoplay_timer init_player = None \<and>
   \<not> autoplay_paused init_player \<and>
   fst (pause_playback True 100 init_player) = True"
  by (simp add: pause_playback_def init_player_def)

theorem pause_without_session_witness:
  "current_track_title init_player = None \<and> autoplay_timer init_player = None \<and>
   \<not> autoplay_paused init_player \<and>
   pause_playback True 100 init_player = (True, init_player) \<and>
   pause_playback False 100 init_player = (False, init_player)"
proof -
  have h: "current_track_title init_player = None" "autoplay_timer init_player = None"
    "\<not> autoplay_paused init_player"
    by (simp_all add: init_player_def)
  from pause_without_session [OF h, of True 100] pause_without_session [OF h, of False 100] h
  show ?thesis by simp
qed

subsection \<open>The shortened Spotify duration\<close>

lemma spotify_timer_dur_cases:
  assumes "0 < d" and "0 \<le> k"
  shows "(k + 1 \<le> d \<longrightarrow> spotify_timer_dur k d = d - k) \<and>
         (1 \<le> d \<and> d \<le> k \<longrightarrow> spotify_timer_dur k d = d) \<and>
         (d < 1 \<or> (k < d \<and> d < k + 1) \<longrightarrow> spotify_timer_dur k d = max (5 / 10) (d * (9 / 10))) \<and>
         5 / 10 \<le> spotify_timer_dur k d \<and>
         (d * (9 / 10) \<le> spotify_timer_dur k d \<longleftrightarrow> \<not> (k + 1 \<le> d \<and> d < 10 * k))"
  using assms by (auto simp: spotify_timer_dur_def Let_def max_def)

lemma play_track_spotify_reused:
  assumes "platform track = ''spotify''" "duration track = Some d" "0 < d"
    "is_truthy (current_track_title s)" "nav_reused ext"
  shows "autoplay_duration (play_track ext now track s) = Some (spotify_timer_dur 5 d) \<and>
         autoplay_start_time (play_track ext now track s) = Some now"
proof -
  have "0 < spotify_timer_dur 5 d"
    using spotify_timer_dur_cases [of d 5] assms(3) by linarith
  then show ?thesis
    using assms by (simp add: play_track_def Let_def arm_spotify_def start_autoplay_timer_def)
qed

lemma play_track_spotify_opened:
  assumes "platform track = ''spotify''" "duration track = Some d" "0 < d"
    "\<not> (is_truthy (current_track_title s) \<and> nav_reused ext)" "url track \<noteq> []"
    "opened ext = Completed"
  shows "autoplay_duration (play_track ext now track s) = Some (spotify_timer_dur 4 d) \<and>
         autoplay_start_time (play_track ext now track s) = Some now"
proof -
  have "0 < spotify_timer_dur 4 d"
    using spotify_timer_dur_cases [of d 4] assms(3) by linarith
  then show ?thesis
    using assms
    by (auto simp: play_track_def Let_def arm_spotify_def start_autoplay_timer_def)
qed

text \<open>
  C7 (amended). For a Spotify track of known duration \<open>d > 0\<close> started on a path that
  arms the timer (offset \<open>k = 5\<close> where the existing tab is reused, \<open>k = 4\<close> where a
  new tab is opened and the opening block completes), the armed duration is \<open>d - k\<close>
  when \<open>d \<ge> k + 1\<close>, \<open>d\<close> itself when \<open>1 \<le> d \<le> k\<close>, and \<open>max 0.5 (0.9 d)\<close>
  otherwise; it is never below 0.5 seconds, and it is at least \<open>0.9 d\<close> exactly when
  \<open>d < k + 1\<close> or \<open>d \<ge> 10 k\<close>.
\<close>

theorem spotify_armed_duration:
  assumes "platform track = ''spotify''" and "duration track = Some d" and "0 < d"
    and "(is_truthy (current_track_title s) \<and> nav_reused ext \<and> k = 5) \<or>
         (\<not> (is_truthy (current_track_title s) \<and> nav_reused ext) \<and> url track \<noteq> [] \<and>
          opened ext = Completed \<and> k = 4)"
  shows "autoplay_duration (play_track ext now track s) = Some (spotify_timer_dur k d) \<and>
         autoplay_start_time (play_track ext now track s) = Some now \<and>
         (k + 1 \<le> d \<longrightarrow> spotify_timer_dur k d = d - k) \<and>
         (1 \<le> d \<and> d \<le> k \<longrightarrow> spotify_timer_dur k d = d) \<and>
         (d < 1 \<or> (k < d \<and> d < k + 1) \<longrightarrow> spotify_timer_dur k d = max (5 / 10) (d * (9 / 10))) \<and>
         5 / 10 \<le> spotify_timer_dur k d \<and>
         (d * (9 / 10) \<le> spotify_timer_dur k d \<longleftrightarrow> \<not> (k + 1 \<le> d \<and> d < 10 * k))"
proof -
  from assms(4) have k: "0 \<le> k" by auto
  have a: "autoplay_duration (play_track ext now track s) = Some (spotify_timer_dur k d) \<and>
         autoplay_start_time (play_track ext now track s) = Some now"
    using assms(4) play_track_spotify_reused [OF assms(1-3)] play_track_spotify_opened [OF assms(1-3)]
    by blast
  from a spotify_timer_dur_cases [OF assms(3) k] show ?thesis by blast
qed

lemma sp_track_fields [simp]:
  "platform (sp_track i d) = ''spotify''" "duration (sp_track i d) = Some d"
  "url (sp_track i d) = ''https://open.spotify.com/track/'' @ i"
  by (simp_all add: sp_track_def)

text \<open>
  C7 as stated fails: a Spotify track of 10 seconds opened in a new tab arms 6 seconds,
  less than 90 percent of its duration.
\<close>

theorem spotify_armed_duration_counterexample:
  "platform (sp_track ''S'' 10) = ''spotify'' \<and> duration (sp_track ''S'' 10) = Some 10 \<and>
   autoplay_duration (play_track quiet 100 (sp_track ''S'' 10) init_player) = Some 6 \<and>
   \<not> (9 / 10 * 10 \<le> (6::real))"
  by (simp add: play_track_def Let_def arm_spotify_def start_autoplay_timer_def
      spotify_timer_dur_def quiet_def init_player_def is_truthy_def)

theorem spotify_armed_duration_witness:
  "platform (sp_track ''S'' 10) = ''spotify'' \<and> duration (sp_track ''S'' 10) = Some 10 \<and>
   (0::real) < 10 \<and>
   \<not> (is_truthy (current_track_title init_player) \<and> nav_reused quiet) \<and>
   url (sp_track ''S'' 10) \<noteq> [] \<and> opened quiet = Completed \<and>
   autoplay_duration (play_track quiet 100 (sp_track ''S'' 10) init_player) = Some 6 \<and>
   autoplay_start_time (play_track quiet 100 (sp_track ''S'' 10) init_player) = Some 100 \<and>
   is_truthy (current_track_title ex_playing) \<and> nav_reused reusing \<and>
   autoplay_duration (play_track reusing 100 (sp_track ''S'' 10) ex_playing) = Some 5 \<and>
   (5::real) / 10 \<le> spotify_timer_dur 5 10"
proof -
  have h1: "\<not> (is_truthy (current_track_title init_player) \<and> nav_reused quiet)"
    "opened quiet = Completed"
    by (simp_all add: init_player_def is_truthy_def quiet_def)
  have h2: "is_truthy (current_track_title ex_playing)" "nav_reused reusing"
    by (simp_all add: ex_playing_def is_truthy_def reusing_def)
  have v: "spotify_timer_dur 4 10 = 6" "spotify_timer_dur 5 10 = 5"
    by (simp_all add: spotify_timer_dur_def)
  from spotify_armed_duration [where track = "sp_track ''S'' 10" and d = 10 and s = init_player
      and ext = quiet and k = 4 and now = 100] h1
  have 1: "autoplay_duration (play_track quiet 100 (sp_track ''S'' 10) init_player) = Some 6"
    "autoplay_start_time (play_track quiet 100 (sp_track ''S'' 10) init_player) = Some 100"
    by (simp_all add: v)
  from spotify_armed_duration [where track = "sp_track ''S'' 10" and d = 10 and s = ex_playing
      and ext = reusing and k = 5 and now = 100] h2
  have 2: "autoplay_duration (play_track reusing 100 (sp_track ''S'' 10) ex_playing) = Some 5"
    "(5::real) / 10 \<le> spotify_timer_dur 5 10"
    by (simp_all add: v)
  from h1 h2 1 2 show ?thesis by simp
qed

subsection \<open>Reordering\<close>

lemma list_pop_in_range:
  "0 \<le> f \<Longrightarrow> f < int (length q) \<Longrightarrow>
   list_pop f q = Some (q ! nat f, take (nat f) q @ drop (Suc (nat f)) q)"
  by (simp add: list_pop_def Let_def)

lemma list_insert_clamped:
  "0 \<le> i \<Longrightarrow> i \<le> int (length xs) \<Longrightarrow>
   list_insert i x xs = take (nat i) xs @ x # drop (nat i) xs"
  by (simp add: list_insert_def Let_def min_def)

lemma mset_insert_at: "mset (take k r @ x # drop k r) = add_mset x (mset r)"
proof -
  have "mset (take k r) + mset (drop k r) = mset r"
    by (metis append_take_drop_id mset_append)
  then show ?thesis by simp
qed

lemma mset_remove_insert:
  assumes "n < length q"
  shows "mset (take k (take n q @ drop (Suc n) q) @ q ! n # drop k (take n q @ drop (Suc n) q)) = mset q"
proof -
  have "mset q = mset (take n q @ q ! n # drop (Suc n) q)"
    using assms by (simp add: id_take_nth_drop [symmetric])
  then have "mset q = add_mset (q ! n) (mset (take n q @ drop (Suc n) q))" by simp
  then show ?thesis by (simp only: mset_insert_at)
qed

text \<open>
  C8. For a source index inside the queue, the drag-and-drop handler removes that element
  first and inserts it into the remaining queue at the target index, clamped into
  \<open>0 .. length of the remaining queue\<close>, so no target index makes it fail; with no
  target row the element goes to the end. The result is a permutation of the queue, and
  on \<open>[a, b, c]\<close> moving index 2 to index 0 gives \<open>[c, a, b]\<close>.
\<close>

theorem reorder_remove_then_insert:
  assumes "0 \<le> f" and "f < int (length (queue s))"
  shows "on_tree_button_release (Some f) (Some t) s =
           s\<lparr>queue :=
               take (nat (min (max 0 t) (int (length (queue s)) - 1)))
                    (take (nat f) (queue s) @ drop (Suc (nat f)) (queue s)) @
               queue s ! nat f #
               drop (nat (min (max 0 t) (int (length (queue s)) - 1)))
                    (take (nat f) (queue s) @ drop (Suc (nat f)) (queue s))\<rparr> \<and>
         on_tree_button_release (Some f) None s =
           s\<lparr>queue := take (nat f) (queue s) @ drop (Suc (nat f)) (queue s) @ [queue s ! nat f]\<rparr> \<and>
         mset (queue (on_tree_button_release (Some f) (Some t) s)) = mset (queue s) \<and>
         length (queue (on_tree_button_release (Some f) (Some t) s)) = length (queue s) \<and>
         (queue s = [a, b, c] \<and> f = 2 \<and> t = 0 \<longrightarrow>
            queue (on_tree_button_release (Some f) (Some t) s) = [c, a, b])"
proof -
  let ?q = "queue s"
  let ?rest = "take (nat f) ?q @ drop (Suc (nat f)) ?q"
  let ?k = "min (max 0 t) (int (length ?q) - 1)"
  have n: "nat f < length ?q" using assms by linarith
  have len: "int (length ?rest) = int (length ?q) - 1" using n by (simp add: min_def)
  have k: "0 \<le> ?k" "?k \<le> int (length ?rest)" using assms len by auto
  have tt: "min (max 0 (if f < t then max 0 t else t)) (int (length ?rest)) = ?k"
    unfolding len by auto
  have ins: "list_insert ?k (?q ! nat f) ?rest = take (nat ?k) ?rest @ ?q ! nat f # drop (nat ?k) ?rest"
    using k by (rule list_insert_clamped)
  have u: "on_tree_button_release (Some f) (Some t) s =
             s\<lparr>queue := list_insert (min (max 0 (if f < t then max 0 t else t)) (int (length ?rest)))
                                    (?q ! nat f) ?rest\<rparr>"
    using assms unfolding on_tree_button_release_def Let_def
    by (simp add: list_pop_in_range)
  have 1: "on_tree_button_release (Some f) (Some t) s =
             s\<lparr>queue := take (nat ?k) ?rest @ ?q ! nat f # drop (nat ?k) ?rest\<rparr>"
    by (simp only: u tt ins)
  have 2: "on_tree_button_release (Some f) None s =
             s\<lparr>queue := take (nat f) ?q @ drop (Suc (nat f)) ?q @ [?q ! nat f]\<rparr>"
    using assms by (simp add: on_tree_button_release_def list_pop_in_range)
  have 3: "mset (queue (on_tree_button_release (Some f) (Some t) s)) = mset ?q"
    unfolding 1 using mset_remove_insert [OF n, of "nat ?k"] by simp
  then have 4: "length (queue (on_tree_button_release (Some f) (Some t) s)) = length ?q"
    by (rule mset_eq_length)
  have 5: "queue (on_tree_button_release (Some f) (Some t) s) = [c, a, b]"
    if "queue s = [a, b, c] \<and> f = 2 \<and> t = 0"
    unfolding 1 using that by (simp add: numeral_2_eq_2)
  from 1 2 3 4 5 show ?thesis by blast
qed

theorem reorder_remove_then_insert_witness:
  "(0::int) \<le> 2 \<and> 2 < int (length (queue ex_sync3)) \<and>
   queue ex_sync3 = [track_A, track_B, track_C] \<and>
   queue (on_tree_button_release (Some 2) (Some 0) ex_sync3) = [track_C, track_A, track_B] \<and>
   (0::int) \<le> 0 \<and> 0 < int (length (queue ex_sync3)) \<and>
   queue (on_tree_button_release (Some 0) (Some 99) ex_sync3) = [track_B, track_C, track_A] \<and>
   queue (on_tree_button_release (Some 0) None ex_sync3) = [track_B, track_C, track_A]"
proof -
  have q: "queue ex_sync3 = [track_A, track_B, track_C]" by (simp add: ex_sync3_def)
  have r: "(0::int) \<le> 2" "2 < int (length (queue ex_sync3))"
    "(0::int) \<le> 0" "0 < int (length (queue ex_sync3))"
    by (simp_all add: q)
  from reorder_remove_then_insert [OF r(1,2), where t = 0 and a = track_A and b = track_B
      and c = track_C] q
  have 1: "queue (on_tree_button_release (Some 2) (Some 0) ex_sync3) = [track_C, track_A, track_B]"
    by blast
  from reorder_remove_then_insert [OF r(3,4), where t = 99]
  have 2: "queue (on_tree_button_release (Some 0) (Some 99) ex_sync3) = [track_B, track_C, track_A]"
    "queue (on_tree_button_release (Some 0) None ex_sync3) = [track_B, track_C, track_A]"
    by (simp_all add: q)
  from q r 1 2 show ?thesis by simp
qed

end
